theory Spec2Isabelle
  imports Main "HOL-Library.Word"
begin

section \<open>The pretty printer of src/pprint/pprint.cc\<close>

text \<open>
  The printer is a chain of four visitors: the generator walks the document and pushes
  stream elements into the annotator, which pushes into the group-begin corrector, which
  pushes into the output visitor. Each visitor holds its own state and a handle \<open>fn\<close> to
  the next one. Here a visitor is a function that takes the next visitor as its first
  argument and transforms the pair of its own state and the state of everything
  downstream. A failed \<open>guarantee\<close>, a dereference of an empty \<open>boost::optional\<close> and a
  \<open>back()\<close> or \<open>pop_back()\<close> on an empty vector are the result \<open>None\<close>.

  \<open>unsigned int\<close> is a 32-bit word and \<open>size_t\<close> a 64-bit word (the LP64 data model);
  a \<open>std::string\<close> is a list of characters, and its \<open>size()\<close> converted to
  \<open>unsigned int\<close> is \<open>of_nat (length s)\<close>.
\<close>

type_synonym uint = "32 word"
type_synonym size_t = "64 word"

subsection \<open>Documents\<close>

text \<open>\<open>Cond small cont tail\<close> has the field order of the constructor of \<open>cond_t\<close>.\<close>

datatype document =
    Text string
  | Cond string string string
  | Concat "document list"
  | Group document
  | Nest document

fun width :: "document \<Rightarrow> uint" where
  "width (Text text) = of_nat (length text)"
| "width (Cond small cont tail) = of_nat (length small)"
| "width (Concat children) = foldl (\<lambda>w child. w + width child) 0 children"
| "width (Group child) = width child"
| "width (Nest child) = width child"

definition make_text :: "string \<Rightarrow> document" where
  "make_text text = Text text"

definition make_cond :: "string \<Rightarrow> string \<Rightarrow> string \<Rightarrow> document" where
  "make_cond l r t = Cond l r t"

definition make_concat :: "document list \<Rightarrow> document" where
  "make_concat args = Concat args"

definition make_group :: "document \<Rightarrow> document" where
  "make_group child = Group child"

definition make_nest :: "document \<Rightarrow> document" where
  "make_nest child = Nest child"

definition empty :: document where
  "empty = Text []"

definition br :: document where
  "br = Cond '' '' [] []"

definition dot :: document where
  "dot = Cond ''.'' ''.'' []"

definition comma_separated :: "document list \<Rightarrow> document" where
  "comma_separated init =
     (case init of
        [] \<Rightarrow> empty
      | first # rest \<Rightarrow>
          make_nest (make_concat (foldl (\<lambda>v d. v @ [Text '','', br, d]) [first] rest)))"

definition arglist :: "document list \<Rightarrow> document" where
  "arglist init = make_concat [Text ''('', comma_separated init, Text '')'']"

definition funcall :: "string \<Rightarrow> document list \<Rightarrow> document" where
  "funcall name init = make_concat [make_text name, arglist init]"

subsection \<open>Stream elements\<close>

text \<open>
  Every element carries the optional \<open>hpos\<close> of \<open>stream_element_t\<close> as its last field;
  \<open>cond_element small tail cont hpos\<close> has the field order of \<open>cond_element_t\<close>.
\<close>

datatype stream_element =
    text_element string "size_t option"
  | cond_element string string string "size_t option"
  | nbeg_element "size_t option"
  | nend_element "size_t option"
  | gbeg_element "size_t option"
  | gend_element "size_t option"

type_synonym 's visitor = "stream_element \<Rightarrow> 's \<Rightarrow> 's option"

text \<open>Pushing a sequence of elements into a visitor, one after the other.\<close>

fun for_each :: "('a \<Rightarrow> 's \<Rightarrow> 's option) \<Rightarrow> 'a list \<Rightarrow> 's \<Rightarrow> 's option" where
  "for_each fn [] s = Some s"
| "for_each fn (e # es) s = (case fn e s of None \<Rightarrow> None | Some s' \<Rightarrow> for_each fn es s')"

subsection \<open>Phase 1: generating the stream\<close>

fun generate_stream :: "'s visitor \<Rightarrow> document \<Rightarrow> 's \<Rightarrow> 's option"
  and generate_children :: "'s visitor \<Rightarrow> document list \<Rightarrow> 's \<Rightarrow> 's option" where
  "generate_stream fn (Text text) s = fn (text_element text None) s"
| "generate_stream fn (Cond small cont tail) s = fn (cond_element small tail cont None) s"
| "generate_stream fn (Concat children) s = generate_children fn children s"
| "generate_stream fn (Group child) s =
     (case fn (gbeg_element None) s of None \<Rightarrow> None
      | Some s1 \<Rightarrow>
     (case generate_stream fn child s1 of None \<Rightarrow> None
      | Some s2 \<Rightarrow> fn (gend_element None) s2))"
| "generate_stream fn (Nest child) s =
     (case fn (nbeg_element None) s of None \<Rightarrow> None
      | Some s1 \<Rightarrow>
     (case fn (gbeg_element None) s1 of None \<Rightarrow> None
      | Some s2 \<Rightarrow>
     (case generate_stream fn child s2 of None \<Rightarrow> None
      | Some s3 \<Rightarrow>
     (case fn (gend_element None) s3 of None \<Rightarrow> None
      | Some s4 \<Rightarrow> fn (nend_element None) s4))))"
| "generate_children fn [] s = Some s"
| "generate_children fn (d # ds) s =
     (case generate_stream fn d s of None \<Rightarrow> None
      | Some s' \<Rightarrow> generate_children fn ds s')"

subsection \<open>Phase 2: annotating with the horizontal position\<close>

text \<open>The state of \<open>annotate_stream_visitor_t\<close> is its \<open>position\<close>.\<close>

fun annotate_stream :: "'s visitor \<Rightarrow> (uint \<times> 's) visitor" where
  "annotate_stream fn (text_element payload h) (position, s) =
     (let position' = position + of_nat (length payload)
      in map_option (Pair position') (fn (text_element payload (Some (ucast position'))) s))"
| "annotate_stream fn (cond_element small tail cont h) (position, s) =
     (let position' = position + of_nat (length small)
      in map_option (Pair position') (fn (cond_element small tail cont (Some (ucast position'))) s))"
| "annotate_stream fn (gbeg_element h) (position, s) =
     map_option (Pair position) (fn (gbeg_element h) s)"
| "annotate_stream fn (gend_element h) (position, s) =
     map_option (Pair position) (fn (gend_element (Some (ucast position))) s)"
| "annotate_stream fn (nbeg_element h) (position, s) =
     map_option (Pair position) (fn (nbeg_element h) s)"
| "annotate_stream fn (nend_element h) (position, s) =
     map_option (Pair position) (fn (nend_element (Some (ucast position))) s)"

subsection \<open>Phase 3: correcting the position of group beginnings\<close>

text \<open>
  The state of \<open>correct_gbeg_visitor_t\<close> is \<open>lookahead\<close>, a vector of buffers: \<open>back()\<close> is
  \<open>last\<close>, \<open>push_back\<close> appends and \<open>pop_back\<close> is \<open>butlast\<close>.
\<close>

type_synonym lookahead = "stream_element list list"

definition maybe_push :: "'s visitor \<Rightarrow> (lookahead \<times> 's) visitor" where
  "maybe_push fn e = (\<lambda>(lookahead, s).
     if lookahead = [] then map_option (Pair lookahead) (fn e s)
     else Some (butlast lookahead @ [last lookahead @ [e]], s))"

fun correct_gbeg_stream :: "'s visitor \<Rightarrow> (lookahead \<times> 's) visitor" where
  "correct_gbeg_stream fn (text_element payload h) (lookahead, s) =
     (if h = None then None else maybe_push fn (text_element payload h) (lookahead, s))"
| "correct_gbeg_stream fn (cond_element small tail cont h) (lookahead, s) =
     (if h = None then None else maybe_push fn (cond_element small tail cont h) (lookahead, s))"
| "correct_gbeg_stream fn (nbeg_element h) (lookahead, s) =
     (if h \<noteq> None then None else maybe_push fn (nbeg_element h) (lookahead, s))"
| "correct_gbeg_stream fn (nend_element h) (lookahead, s) =
     (if h = None then None else maybe_push fn (nend_element h) (lookahead, s))"
| "correct_gbeg_stream fn (gbeg_element h) (lookahead, s) =
     (if h \<noteq> None then None else Some (lookahead @ [[]], s))"
| "correct_gbeg_stream fn (gend_element h) (lookahead, s) =
     (if h = None then None
      else if lookahead = [] then None
      else
        let b = last lookahead; lookahead' = butlast lookahead
        in if lookahead' = [] then
             (case fn (gbeg_element h) s of None \<Rightarrow> None
              | Some s1 \<Rightarrow>
             (case for_each fn b s1 of None \<Rightarrow> None
              | Some s2 \<Rightarrow> map_option (Pair lookahead') (fn (gend_element h) s2)))
           else
             Some (butlast lookahead' @ [last lookahead' @ [gbeg_element h] @ b @ [gend_element h]], s))"

subsection \<open>Phase 4: computing the output\<close>

text \<open>
  The fields of \<open>output_visitor_t\<close>; its constant \<open>width\<close> is the field \<open>page_width\<close>, as
  \<open>width\<close> is the width of a document above. \<open>indent\<close> is a vector, used as \<open>lookahead\<close> is.
\<close>

record output_visitor =
  page_width :: uint
  fittingElements :: uint
  rightEdge :: uint
  hpos :: uint
  indent :: "uint list"
  result :: string

definition new_output_visitor :: "uint \<Rightarrow> output_visitor" where
  "new_output_visitor w =
     \<lparr>page_width = w, fittingElements = 0, rightEdge = w, hpos = 0, indent = [], result = []\<rparr>"

definition newline :: char where
  "newline = CHR 0x0A"

fun output_visit :: "output_visitor visitor" where
  "output_visit (text_element payload h) s =
     Some (s\<lparr>result := result s @ payload, hpos := hpos s + of_nat (length payload)\<rparr>)"
| "output_visit (cond_element small tail cont h) s =
     (if fittingElements s = 0 then
        (case h of None \<Rightarrow> None
         | Some c_hpos \<Rightarrow>
            let currentIndent = (if indent s = [] then 0 else last (indent s));
                hpos' = currentIndent + of_nat (length cont)
            in Some (s\<lparr>result := result s @ tail @ [newline]
                                 @ replicate (unat currentIndent) CHR '' '' @ cont,
                       fittingElements := 0,
                       hpos := hpos',
                       rightEdge := ucast ((ucast (page_width s - hpos') :: size_t) + c_hpos)\<rparr>))
      else Some (s\<lparr>result := result s @ small, hpos := hpos s + of_nat (length small)\<rparr>))"
| "output_visit (gbeg_element h) s =
     (if fittingElements s \<noteq> 0 then Some (s\<lparr>fittingElements := fittingElements s + 1\<rparr>)
      else (case h of None \<Rightarrow> None
            | Some e_hpos \<Rightarrow>
                if (ucast e_hpos :: uint) \<le> rightEdge s
                then Some (s\<lparr>fittingElements := fittingElements s + 1\<rparr>)
                else Some (s\<lparr>fittingElements := 0\<rparr>)))"
| "output_visit (gend_element h) s =
     (if fittingElements s \<noteq> 0 then Some (s\<lparr>fittingElements := fittingElements s - 1\<rparr>)
      else Some s)"
| "output_visit (nbeg_element h) s = Some (s\<lparr>indent := indent s @ [hpos s]\<rparr>)"
| "output_visit (nend_element h) s =
     (if indent s = [] then None else Some (s\<lparr>indent := butlast (indent s)\<rparr>))"

subsection \<open>The chain\<close>

definition pretty_print :: "uint \<Rightarrow> document \<Rightarrow> string option" where
  "pretty_print w doc =
     (case generate_stream (annotate_stream (correct_gbeg_stream output_visit)) doc
             (0, [], new_output_visitor w) of
        None \<Rightarrow> None
      | Some (position, lookahead, output) \<Rightarrow> Some (result output))"

subsection \<open>Observing the stream between two visitors\<close>

text \<open>
  A visitor that records every element it is given. Put in the place of the next visitor,
  it shows the stream that visitor receives.
\<close>

definition collect :: "stream_element list visitor" where
  "collect e es = Some (es @ [e])"

definition generated_stream :: "document \<Rightarrow> stream_element list option" where
  "generated_stream doc = generate_stream collect doc []"

definition annotated_stream :: "document \<Rightarrow> (uint \<times> stream_element list) option" where
  "annotated_stream doc = generate_stream (annotate_stream collect) doc (0, [])"

definition corrected_stream :: "document \<Rightarrow> stream_element list option" where
  "corrected_stream doc =
     (case generate_stream (annotate_stream (correct_gbeg_stream collect)) doc (0, [], []) of
        None \<Rightarrow> None
      | Some (position, lookahead, es) \<Rightarrow> Some es)"

text \<open>Running the output visitor over a stream, from a fresh visitor of width \<open>w\<close>.\<close>

definition render :: "uint \<Rightarrow> stream_element list \<Rightarrow> string option" where
  "render w es = map_option result (for_each output_visit es (new_output_visitor w))"

subsection \<open>Vocabulary of the properties\<close>

fun elem_hpos :: "stream_element \<Rightarrow> size_t option" where
  "elem_hpos (text_element payload h) = h"
| "elem_hpos (cond_element small tail cont h) = h"
| "elem_hpos (nbeg_element h) = h"
| "elem_hpos (nend_element h) = h"
| "elem_hpos (gbeg_element h) = h"
| "elem_hpos (gend_element h) = h"

fun is_nbeg :: "stream_element \<Rightarrow> bool" where
  "is_nbeg (nbeg_element h) = True"
| "is_nbeg e = False"

fun is_gbeg :: "stream_element \<Rightarrow> bool" where
  "is_gbeg (gbeg_element h) = True"
| "is_gbeg e = False"

fun is_cond :: "stream_element \<Rightarrow> bool" where
  "is_cond (cond_element small tail cont h) = True"
| "is_cond e = False"

text \<open>The element as the generator made it: without a position.\<close>

fun unset_hpos :: "stream_element \<Rightarrow> stream_element" where
  "unset_hpos (text_element payload h) = text_element payload None"
| "unset_hpos (cond_element small tail cont h) = cond_element small tail cont None"
| "unset_hpos (nbeg_element h) = nbeg_element None"
| "unset_hpos (nend_element h) = nend_element None"
| "unset_hpos (gbeg_element h) = gbeg_element None"
| "unset_hpos (gend_element h) = gend_element None"

text \<open>The element as the annotator forwards it: a group beginning has no position.\<close>

fun unset_gbeg :: "stream_element \<Rightarrow> stream_element" where
  "unset_gbeg (gbeg_element h) = gbeg_element None"
| "unset_gbeg e = e"

text \<open>
  Group beginnings and ends match like brackets. \<open>gbeg_matched open es\<close> holds when every
  group end in \<open>es\<close> has a position and it is the position of its group beginning, \<open>open\<close>
  being the positions of the group beginnings that are still open.
\<close>

fun gbeg_matched :: "size_t option list \<Rightarrow> stream_element list \<Rightarrow> bool" where
  "gbeg_matched opened [] = (opened = [])"
| "gbeg_matched opened (gbeg_element h # es) = gbeg_matched (h # opened) es"
| "gbeg_matched opened (gend_element h # es) =
     (case opened of [] \<Rightarrow> False
      | g # opened' \<Rightarrow> h \<noteq> None \<and> g = h \<and> gbeg_matched opened' es)"
| "gbeg_matched opened (e # es) = gbeg_matched opened es"

text \<open>
  Groups and nests are balanced and nested: \<open>True\<close> on the stack is an open group,
  \<open>False\<close> an open nest.
\<close>

fun balanced :: "bool list \<Rightarrow> stream_element list \<Rightarrow> bool" where
  "balanced opened [] = (opened = [])"
| "balanced opened (gbeg_element h # es) = balanced (True # opened) es"
| "balanced opened (nbeg_element h # es) = balanced (False # opened) es"
| "balanced opened (gend_element h # es) =
     (case opened of [] \<Rightarrow> False | k # opened' \<Rightarrow> k \<and> balanced opened' es)"
| "balanced opened (nend_element h # es) =
     (case opened of [] \<Rightarrow> False | k # opened' \<Rightarrow> \<not> k \<and> balanced opened' es)"
| "balanced opened (e # es) = balanced opened es"

text \<open>The flat width an element adds, in the arithmetic of \<open>unsigned int\<close>.\<close>

fun elem_width :: "stream_element \<Rightarrow> uint" where
  "elem_width (text_element payload h) = of_nat (length payload)"
| "elem_width (cond_element small tail cont h) = of_nat (length small)"
| "elem_width e = 0"

text \<open>The flat layout: every text and the \<open>small\<close> of every conditional, in order.\<close>

fun flat_text :: "document \<Rightarrow> string" where
  "flat_text (Text text) = text"
| "flat_text (Cond small cont tail) = small"
| "flat_text (Concat children) = concat (map flat_text children)"
| "flat_text (Group child) = flat_text child"
| "flat_text (Nest child) = flat_text child"

fun elem_flat :: "stream_element \<Rightarrow> string" where
  "elem_flat (text_element payload h) = payload"
| "elem_flat (cond_element small tail cont h) = small"
| "elem_flat e = []"

text \<open>How deep groups (and nests, which open a group each) are nested.\<close>

fun depth :: "document \<Rightarrow> nat" where
  "depth (Text text) = 0"
| "depth (Cond small cont tail) = 0"
| "depth (Concat children) = foldr (\<lambda>child m. max (depth child) m) children 0"
| "depth (Group child) = Suc (depth child)"
| "depth (Nest child) = Suc (depth child)"

text \<open>Every conditional of the document lies inside a group or a nest.\<close>

fun conds_grouped :: "document \<Rightarrow> bool" where
  "conds_grouped (Text text) = True"
| "conds_grouped (Cond small cont tail) = False"
| "conds_grouped (Concat children) = list_all conds_grouped children"
| "conds_grouped (Group child) = True"
| "conds_grouped (Nest child) = True"

definition count_newlines :: "string \<Rightarrow> nat" where
  "count_newlines s = length (filter (\<lambda>c. c = newline) s)"

text \<open>The newlines that the texts of a document hold, and whether a \<open>small\<close> holds one.\<close>

fun text_newlines :: "document \<Rightarrow> nat" where
  "text_newlines (Text text) = count_newlines text"
| "text_newlines (Cond small cont tail) = 0"
| "text_newlines (Concat children) = sum_list (map text_newlines children)"
| "text_newlines (Group child) = text_newlines child"
| "text_newlines (Nest child) = text_newlines child"

fun small_plain :: "document \<Rightarrow> bool" where
  "small_plain (Text text) = True"
| "small_plain (Cond small cont tail) = (newline \<notin> set small)"
| "small_plain (Concat children) = list_all small_plain children"
| "small_plain (Group child) = small_plain child"
| "small_plain (Nest child) = small_plain child"

text \<open>
  Every conditional has a \<open>small\<close> that is not empty and at least as long as its \<open>cont\<close>,
  as \<open>br\<close> and \<open>dot\<close> have.
\<close>

fun conds_proper :: "document \<Rightarrow> bool" where
  "conds_proper (Text text) = True"
| "conds_proper (Cond small cont tail) = (small \<noteq> [] \<and> length cont \<le> length small)"
| "conds_proper (Concat children) = list_all conds_proper children"
| "conds_proper (Group child) = conds_proper child"
| "conds_proper (Nest child) = conds_proper child"

text \<open>
  \<open>all_break s es\<close>: the output visitor, started in state \<open>s\<close>, runs through \<open>es\<close> and
  is at \<open>fittingElements = 0\<close> at every conditional, so each takes its break branch.
\<close>

fun all_break :: "output_visitor \<Rightarrow> stream_element list \<Rightarrow> bool" where
  "all_break s [] = True"
| "all_break s (e # es) =
     (case output_visit e s of None \<Rightarrow> False
      | Some s' \<Rightarrow> (is_cond e \<longrightarrow> fittingElements s = 0) \<and> all_break s' es)"

text \<open>
  The stream of a document written out by recursion on the document, the annotator
  starting at \<open>position\<close>: with \<open>corrected\<close>, a group beginning has the position of its
  group end, without, it has none.
\<close>

fun stream_at :: "bool \<Rightarrow> uint \<Rightarrow> document \<Rightarrow> stream_element list"
  and streams_at :: "bool \<Rightarrow> uint \<Rightarrow> document list \<Rightarrow> stream_element list" where
  "stream_at c p (Text text) = [text_element text (Some (ucast (p + of_nat (length text))))]"
| "stream_at c p (Cond small cont tail) =
     [cond_element small tail cont (Some (ucast (p + of_nat (length small))))]"
| "stream_at c p (Concat children) = streams_at c p children"
| "stream_at c p (Group child) =
     gbeg_element (if c then Some (ucast (p + width child)) else None)
       # stream_at c p child @ [gend_element (Some (ucast (p + width child)))]"
| "stream_at c p (Nest child) =
     nbeg_element None
       # gbeg_element (if c then Some (ucast (p + width child)) else None)
       # stream_at c p child
       @ [gend_element (Some (ucast (p + width child))),
          nend_element (Some (ucast (p + width child)))]"
| "streams_at c p [] = []"
| "streams_at c p (d # ds) = stream_at c p d @ streams_at c (p + width d) ds"

text \<open>
  \<open>positioned p es\<close>: every element of \<open>es\<close> other than a nest or group beginning has as
  its position the flat width of the stream up to and including it, \<open>p\<close> being the width
  before \<open>es\<close>.
\<close>

fun positioned :: "uint \<Rightarrow> stream_element list \<Rightarrow> bool" where
  "positioned p [] = True"
| "positioned p (e # es) =
     ((is_nbeg e \<or> is_gbeg e \<or> elem_hpos e = Some (ucast (p + elem_width e)))
      \<and> positioned (p + elem_width e) es)"

text \<open>
  The layout in which every conditional breaks, by recursion on the document: a text is
  itself; a conditional is its \<open>tail\<close>, a newline, the indentation and its \<open>cont\<close>; the
  indentation is the column at which the innermost nest around it was opened, 0 outside
  every nest. \<open>ind\<close> holds the columns of the open nests, \<open>col\<close> is the current column;
  the result is the text and the column after it.
\<close>

fun break_layout :: "uint list \<Rightarrow> uint \<Rightarrow> document \<Rightarrow> string \<times> uint"
  and break_layouts :: "uint list \<Rightarrow> uint \<Rightarrow> document list \<Rightarrow> string \<times> uint" where
  "break_layout ind col (Text text) = (text, col + of_nat (length text))"
| "break_layout ind col (Cond small cont tail) =
     (let i = (if ind = [] then 0 else last ind)
      in (tail @ [newline] @ replicate (unat i) CHR '' '' @ cont, i + of_nat (length cont)))"
| "break_layout ind col (Concat children) = break_layouts ind col children"
| "break_layout ind col (Group child) = break_layout ind col child"
| "break_layout ind col (Nest child) = break_layout (ind @ [col]) col child"
| "break_layouts ind col [] = ([], col)"
| "break_layouts ind col (d # ds) =
     (fst (break_layout ind col d) @ fst (break_layouts ind (snd (break_layout ind col d)) ds),
      snd (break_layouts ind (snd (break_layout ind col d)) ds))"

text \<open>
  What holds of the output visitor of width 0 between two elements, \<open>p\<close> being the
  position of the annotator there: no group is fitting, and neither the right edge nor the
  column nor any indentation is beyond \<open>p\<close>.
\<close>

definition narrow_inv :: "uint \<Rightarrow> output_visitor \<Rightarrow> bool" where
  "narrow_inv p s \<longleftrightarrow>
     page_width s = 0 \<and> fittingElements s = 0 \<and> rightEdge s \<le> p \<and> hpos s \<le> p
     \<and> list_all (\<lambda>i. i \<le> p) (indent s)"

text \<open>
  \<open>narrow_run s es p' L\<close>: from \<open>s\<close> the output visitor runs through \<open>es\<close>, every
  conditional breaking, appends the text of \<open>L\<close>, ends in the column of \<open>L\<close> with the
  indentations it started with, and \<open>narrow_inv p'\<close> holds of the state it ends in.
\<close>

definition narrow_run ::
  "output_visitor \<Rightarrow> stream_element list \<Rightarrow> uint \<Rightarrow> string \<times> uint \<Rightarrow> bool" where
  "narrow_run s es p' L \<longleftrightarrow>
     (\<exists>s'. for_each output_visit es s = Some s' \<and> narrow_inv p' s' \<and> indent s' = indent s
        \<and> result s' = result s @ fst L \<and> hpos s' = snd L \<and> all_break s es)"

text \<open>
  \<open>gbeg_at_end opened p es\<close>: every group beginning has as its position the flat width
  of the stream up to its matching group end, that is, the column at which its group ends
  in flat layout. \<open>p\<close> is the flat width before \<open>es\<close>, \<open>opened\<close> the positions of the group
  beginnings that are still open.
\<close>

fun gbeg_at_end :: "size_t option list \<Rightarrow> uint \<Rightarrow> stream_element list \<Rightarrow> bool" where
  "gbeg_at_end opened p [] = (opened = [])"
| "gbeg_at_end opened p (gbeg_element h # es) = gbeg_at_end (h # opened) p es"
| "gbeg_at_end opened p (gend_element h # es) =
     (case opened of [] \<Rightarrow> False
      | g # opened' \<Rightarrow> g = Some (ucast p) \<and> gbeg_at_end opened' p es)"
| "gbeg_at_end opened p (e # es) = gbeg_at_end opened (p + elem_width e) es"

text \<open>The document holds a conditional.\<close>

fun has_cond :: "document \<Rightarrow> bool" where
  "has_cond (Text text) = False"
| "has_cond (Cond small cont tail) = True"
| "has_cond (Concat children) = list_ex has_cond children"
| "has_cond (Group child) = has_cond child"
| "has_cond (Nest child) = has_cond child"

text \<open>No conditional has a \<open>cont\<close> longer than its \<open>small\<close>.\<close>

fun conts_short :: "document \<Rightarrow> bool" where
  "conts_short (Text text) = True"
| "conts_short (Cond small cont tail) = (length cont \<le> length small)"
| "conts_short (Concat children) = list_all conts_short children"
| "conts_short (Group child) = conts_short child"
| "conts_short (Nest child) = conts_short child"

text \<open>
  No conditional has more newlines in its \<open>small\<close> than in its broken form, which is
  \<open>tail\<close>, a newline and \<open>cont\<close>.
\<close>

fun smalls_light :: "document \<Rightarrow> bool" where
  "smalls_light (Text text) = True"
| "smalls_light (Cond small cont tail) =
     (count_newlines small \<le> count_newlines tail + 1 + count_newlines cont)"
| "smalls_light (Concat children) = list_all smalls_light children"
| "smalls_light (Group child) = smalls_light child"
| "smalls_light (Nest child) = smalls_light child"

text \<open>
  A group or nest that holds a conditional is printed flat at one width and broken at
  another, so the column after it depends on the width, until the next conditional outside
  it breaks the line and sets the column to the indentation. \<open>groups_apart loose d\<close> reads
  \<open>d\<close> in order, \<open>loose\<close> saying that such a group has ended since the last conditional
  outside it. It is \<open>None\<close> when a group or nest holding a conditional begins while the
  column is loose, also inside such a group, where the reading starts afresh; otherwise it
  is whether the column is loose after \<open>d\<close>.
\<close>

fun groups_apart :: "bool \<Rightarrow> document \<Rightarrow> bool option"
  and groups_apart_list :: "bool \<Rightarrow> document list \<Rightarrow> bool option" where
  "groups_apart loose (Text text) = Some loose"
| "groups_apart loose (Cond small cont tail) = Some False"
| "groups_apart loose (Concat children) = groups_apart_list loose children"
| "groups_apart loose (Group child) =
     (if has_cond child then
        (if loose then None
         else (case groups_apart False child of None \<Rightarrow> None | Some l \<Rightarrow> Some True))
      else Some loose)"
| "groups_apart loose (Nest child) =
     (if has_cond child then
        (if loose then None
         else (case groups_apart False child of None \<Rightarrow> None | Some l \<Rightarrow> Some True))
      else Some loose)"
| "groups_apart_list loose [] = Some loose"
| "groups_apart_list loose (d # ds) =
     (case groups_apart loose d of None \<Rightarrow> None | Some l \<Rightarrow> groups_apart_list l ds)"

text \<open>
  What holds of the output visitor between two elements at any width, \<open>p\<close> being the
  position of the annotator there: neither the column nor any indentation is beyond \<open>p\<close>,
  and the right edge is the page width ahead of the column, counted from \<open>p\<close>.
\<close>

definition page_inv :: "uint \<Rightarrow> output_visitor \<Rightarrow> bool" where
  "page_inv p s \<longleftrightarrow>
     hpos s \<le> p \<and> list_all (\<lambda>i. i \<le> p) (indent s)
     \<and> unat (rightEdge s) + unat (hpos s) = unat (page_width s) + unat p"

text \<open>
  \<open>page_run s es p' n\<close>: from \<open>s\<close>, where no group is fitting, the output visitor runs
  through \<open>es\<close> and adds at least \<open>n\<close> newlines; it ends with no group fitting, with the
  indentations and the page width it started with, and \<open>page_inv p'\<close> holds there.
\<close>

definition page_run :: "output_visitor \<Rightarrow> stream_element list \<Rightarrow> uint \<Rightarrow> nat \<Rightarrow> bool" where
  "page_run s es p' n \<longleftrightarrow>
     (\<exists>s'. for_each output_visit es s = Some s' \<and> page_inv p' s' \<and> fittingElements s' = 0
        \<and> indent s' = indent s \<and> page_width s' = page_width s
        \<and> count_newlines (result s) + n \<le> count_newlines (result s'))"

text \<open>
  Two output visitors at the same place of the same stream, the first of them with the
  wider page: no group is fitting in either, they have the same indentations and, unless
  \<open>loose\<close>, the same column, and the first has printed no more newlines than the second.
\<close>

definition rel_inv :: "bool \<Rightarrow> uint \<Rightarrow> output_visitor \<Rightarrow> output_visitor \<Rightarrow> bool" where
  "rel_inv loose p s1 s2 \<longleftrightarrow>
     page_inv p s1 \<and> page_inv p s2 \<and> fittingElements s1 = 0 \<and> fittingElements s2 = 0
     \<and> indent s1 = indent s2 \<and> page_width s2 \<le> page_width s1
     \<and> count_newlines (result s1) \<le> count_newlines (result s2)
     \<and> (\<not> loose \<longrightarrow> hpos s1 = hpos s2)"

text \<open>\<open>rel_run s1 s2 es loose' p'\<close>: both visitors run through \<open>es\<close> and are so related after it.\<close>

definition rel_run ::
  "output_visitor \<Rightarrow> output_visitor \<Rightarrow> stream_element list \<Rightarrow> bool \<Rightarrow> uint \<Rightarrow> bool" where
  "rel_run s1 s2 es loose' p' \<longleftrightarrow>
     (\<exists>s1' s2'. for_each output_visit es s1 = Some s1' \<and> for_each output_visit es s2 = Some s2'
        \<and> rel_inv loose' p' s1' s2' \<and> indent s1' = indent s1
        \<and> page_width s1' = page_width s1 \<and> page_width s2' = page_width s2)"

section \<open>The chain as a composition of streams\<close>

lemma for_each_append:
  "for_each fn (xs @ ys) s = (case for_each fn xs s of None \<Rightarrow> None | Some s' \<Rightarrow> for_each fn ys s')"
  by (induction xs arbitrary: s) (auto split: option.splits)

lemma for_each_collect: "for_each collect es acc = Some (acc @ es)"
  by (induction es arbitrary: acc) (auto simp: collect_def)

lemma foldl_width: "foldl (\<lambda>w child. w + width child) a ds = a + sum_list (map width ds)"
  by (induction ds arbitrary: a) (auto simp: add.assoc)

lemma width_Concat: "width (Concat ds) = sum_list (map width ds)"
  by (simp add: foldl_width)

lemma generate_children_annotate:
  assumes "\<And>d p s. d \<in> set ds \<Longrightarrow>
     generate_stream (annotate_stream fn) d (p, s) =
       (case for_each fn (stream_at False p d) s of None \<Rightarrow> None
        | Some s' \<Rightarrow> Some (p + width d, s'))"
  shows "generate_children (annotate_stream fn) ds (p, s) =
     (case for_each fn (streams_at False p ds) s of None \<Rightarrow> None
      | Some s' \<Rightarrow> Some (p + sum_list (map width ds), s'))"
  using assms
  by (induction ds arbitrary: p s)
     (auto simp: for_each_append add.assoc split: option.splits)

lemma generate_annotate:
  "generate_stream (annotate_stream fn) d (p, s) =
     (case for_each fn (stream_at False p d) s of None \<Rightarrow> None | Some s' \<Rightarrow> Some (p + width d, s'))"
proof (induction d arbitrary: p s)
  case (Concat ds)
  then show ?case
    by (simp only: generate_stream.simps stream_at.simps width_Concat generate_children_annotate)
next
  case (Group d)
  then show ?case by (auto simp: for_each_append split: option.splits)
next
  case (Nest d)
  then show ?case by (auto simp: for_each_append split: option.splits)
qed (auto split: option.splits)

lemma correct_gend:
  "correct_gbeg_stream fn (gend_element (Some h)) (la @ [b], s) =
     (if la = [] then
        (case for_each fn (gbeg_element (Some h) # b @ [gend_element (Some h)]) s of
           None \<Rightarrow> None | Some s' \<Rightarrow> Some ([], s'))
      else Some (butlast la @ [last la @ gbeg_element (Some h) # b @ [gend_element (Some h)]], s))"
  by (auto simp: Let_def for_each_append split: option.splits)

lemma correct_group:
  assumes "\<And>la s. for_each (correct_gbeg_stream fn) es (la, s) =
       (if la = [] then (case for_each fn cs s of None \<Rightarrow> None | Some s' \<Rightarrow> Some ([], s'))
        else Some (butlast la @ [last la @ cs], s))"
  shows "for_each (correct_gbeg_stream fn) (gbeg_element None # es @ [gend_element (Some h)]) (la, s) =
       (if la = [] then
          (case for_each fn (gbeg_element (Some h) # cs @ [gend_element (Some h)]) s of
             None \<Rightarrow> None | Some s' \<Rightarrow> Some ([], s'))
        else Some (butlast la @ [last la @ gbeg_element (Some h) # cs @ [gend_element (Some h)]], s))"
proof -
  have "for_each (correct_gbeg_stream fn) (gbeg_element None # es @ [gend_element (Some h)]) (la, s)
      = for_each (correct_gbeg_stream fn) (es @ [gend_element (Some h)]) (la @ [[]], s)"
    by simp
  also have "\<dots> = correct_gbeg_stream fn (gend_element (Some h)) (la @ [cs], s)"
    by (simp add: for_each_append assms del: correct_gbeg_stream.simps split: option.splits)
  finally show ?thesis
    by (simp only: correct_gend)
qed

lemma correct_push:
  assumes "e = text_element t (Some h) \<or> e = cond_element sm tail ct (Some h)
           \<or> e = nbeg_element None \<or> e = nend_element (Some h)"
  shows "for_each (correct_gbeg_stream fn) [e] (la, s) =
       (if la = [] then (case for_each fn [e] s of None \<Rightarrow> None | Some s' \<Rightarrow> Some ([], s'))
        else Some (butlast la @ [last la @ [e]], s))"
  using assms by (cases "la = []") (auto simp: maybe_push_def split: option.splits)

lemma correct_seq:
  assumes "\<And>la s. for_each (correct_gbeg_stream fn) es (la, s) =
       (if la = [] then (case for_each fn cs s of None \<Rightarrow> None | Some s' \<Rightarrow> Some ([], s'))
        else Some (butlast la @ [last la @ cs], s))"
   and "\<And>la s. for_each (correct_gbeg_stream fn) es' (la, s) =
       (if la = [] then (case for_each fn cs' s of None \<Rightarrow> None | Some s' \<Rightarrow> Some ([], s'))
        else Some (butlast la @ [last la @ cs'], s))"
  shows "for_each (correct_gbeg_stream fn) (es @ es') (la, s) =
       (if la = [] then (case for_each fn (cs @ cs') s of None \<Rightarrow> None | Some s' \<Rightarrow> Some ([], s'))
        else Some (butlast la @ [last la @ cs @ cs'], s))"
  by (simp add: for_each_append assms split: option.splits)

lemma correct_children:
  assumes "\<And>d p la s. d \<in> set ds \<Longrightarrow>
     for_each (correct_gbeg_stream fn) (stream_at False p d) (la, s) =
       (if la = [] then (case for_each fn (stream_at True p d) s of None \<Rightarrow> None
                         | Some s' \<Rightarrow> Some ([], s'))
        else Some (butlast la @ [last la @ stream_at True p d], s))"
  shows "for_each (correct_gbeg_stream fn) (streams_at False p ds) (la, s) =
       (if la = [] then (case for_each fn (streams_at True p ds) s of None \<Rightarrow> None
                         | Some s' \<Rightarrow> Some ([], s'))
        else Some (butlast la @ [last la @ streams_at True p ds], s))"
  using assms
proof (induction ds arbitrary: p la s)
  case Nil
  then show ?case by simp
next
  case (Cons d ds)
  show ?case
    unfolding streams_at.simps
    by (rule correct_seq) (simp_all add: Cons)
qed

lemma correct_document:
  "for_each (correct_gbeg_stream fn) (stream_at False p d) (la, s) =
       (if la = [] then (case for_each fn (stream_at True p d) s of None \<Rightarrow> None
                         | Some s' \<Rightarrow> Some ([], s'))
        else Some (butlast la @ [last la @ stream_at True p d], s))"
proof (induction d arbitrary: p la s)
  case (Text t)
  show ?case unfolding stream_at.simps by (rule correct_push) simp
next
  case (Cond sm ct tail)
  show ?case unfolding stream_at.simps by (rule correct_push) simp
next
  case (Concat ds)
  then show ?case
    by (simp only: stream_at.simps correct_children)
next
  case (Group d)
  show ?case
    unfolding stream_at.simps if_True if_False
    by (rule correct_group) (rule Group)
next
  case (Nest d)
  have "for_each (correct_gbeg_stream fn)
          ([nbeg_element None] @ (gbeg_element None # stream_at False p d
              @ [gend_element (Some (ucast (p + width d)))])
              @ [nend_element (Some (ucast (p + width d)))]) (la, s) =
       (if la = [] then
          (case for_each fn ([nbeg_element None] @ (gbeg_element (Some (ucast (p + width d)))
                 # stream_at True p d @ [gend_element (Some (ucast (p + width d)))])
                 @ [nend_element (Some (ucast (p + width d)))]) s of
             None \<Rightarrow> None | Some s' \<Rightarrow> Some ([], s'))
        else Some (butlast la @ [last la @ [nbeg_element None] @ (gbeg_element (Some (ucast (p + width d)))
                 # stream_at True p d @ [gend_element (Some (ucast (p + width d)))])
                 @ [nend_element (Some (ucast (p + width d)))]], s))"
    apply (rule correct_seq)
     apply (rule correct_push, simp)
    apply (rule correct_seq)
     apply (rule correct_group, rule Nest)
    apply (rule correct_push, simp)
    done
  then show ?case by simp
qed

lemma generate_pipeline:
  "generate_stream (annotate_stream (correct_gbeg_stream fn)) d (p, [], s) =
     (case for_each fn (stream_at True p d) s of None \<Rightarrow> None
      | Some s' \<Rightarrow> Some (p + width d, [], s'))"
  by (simp add: generate_annotate correct_document split: option.splits)

lemma pretty_print_render: "pretty_print w d = render w (stream_at True 0 d)"
  by (simp add: pretty_print_def render_def generate_pipeline split: option.splits)

lemma corrected_stream_eq: "corrected_stream d = Some (stream_at True 0 d)"
  by (simp add: corrected_stream_def generate_pipeline for_each_collect)

lemma annotated_stream_eq: "annotated_stream d = Some (width d, stream_at False 0 d)"
  by (simp add: annotated_stream_def generate_annotate for_each_collect)

section \<open>Steps of the output visitor\<close>

lemma ucast_ucast_up: "(ucast (ucast (a::32 word) :: 64 word) :: 32 word) = a"
  by (simp add: ucast_up_ucast_id is_up)

lemma take_bit_32_64: "take_bit (32::nat) (take_bit (64::nat) (y::int)) = take_bit 32 y"
  by (simp add: take_bit_take_bit)

lemma take_bit_32_add_64:
  "take_bit (32::nat) (take_bit (64::nat) x + take_bit (64::nat) h) = take_bit 32 (x + h :: int)"
proof -
  have "take_bit (32::nat) (take_bit (64::nat) x + take_bit (64::nat) h)
      = take_bit 32 (take_bit 64 (take_bit 64 x + take_bit 64 h))"
    by (simp only: take_bit_32_64)
  also have "\<dots> = take_bit 32 (take_bit 64 (x + h))"
    by (simp only: take_bit_add)
  also have "\<dots> = take_bit 32 (x + h)"
    by (simp only: take_bit_32_64)
  finally show ?thesis .
qed

lemma ucast_add_64_32: "(ucast ((x :: 64 word) + h) :: 32 word) = ucast x + ucast h"
  apply transfer
  subgoal for x h using take_bit_32_add_64[of x h] by simp
  done

lemma ucast_add_down: "(ucast ((ucast (a::32 word) :: 64 word) + h) :: 32 word) = a + ucast h"
  by (simp only: ucast_add_64_32 ucast_ucast_up)

text \<open>
  C3. A conditional with position \<open>h\<close> that reaches the output visitor at
  \<open>fittingElements = 0\<close> appends \<open>tail\<close>, a newline, as many spaces as the top of \<open>indent\<close>
  (none when it is empty) and \<open>cont\<close>; afterwards \<open>hpos\<close> is that indentation plus the length
  of \<open>cont\<close>, and \<open>rightEdge\<close> is \<open>(width - hpos) + h\<close>, all in the arithmetic of
  \<open>unsigned int\<close>.
\<close>

theorem cond_break_step:
  assumes "fittingElements s = 0"
  shows "\<exists>s'. output_visit (cond_element small tail cont (Some h)) s = Some s'
     \<and> result s' = result s @ tail @ [newline]
           @ replicate (unat (if indent s = [] then 0 else last (indent s))) CHR '' '' @ cont
     \<and> hpos s' = (if indent s = [] then 0 else last (indent s)) + of_nat (length cont)
     \<and> rightEdge s' = (page_width s - hpos s') + ucast h"
  using assms by (simp add: Let_def ucast_add_down)

theorem cond_break_step_witness:
  "fittingElements ((new_output_visitor 3)\<lparr>indent := [2]\<rparr>) = 0
   \<and> (\<exists>s'. output_visit (cond_element '' '' [] [] (Some 5)) ((new_output_visitor 3)\<lparr>indent := [2]\<rparr>)
              = Some s'
          \<and> result s' = newline # replicate 2 CHR '' ''
          \<and> hpos s' = 2 \<and> rightEdge s' = 6)"
  using cond_break_step [of "(new_output_visitor 3)\<lparr>indent := [2]\<rparr>" "'' ''" "[]" "[]" 5]
  by (simp add: new_output_visitor_def)

text \<open>
  C7. A conditional that reaches the output visitor at \<open>fittingElements \<noteq> 0\<close> appends its
  \<open>small\<close> and nothing else: neither \<open>tail\<close> nor \<open>cont\<close> occurs in the new state, whatever
  they are.
\<close>

theorem cond_flat_step:
  assumes "fittingElements s \<noteq> 0"
  shows "output_visit (cond_element small tail cont h) s
           = Some (s\<lparr>result := result s @ small, hpos := hpos s + of_nat (length small)\<rparr>)"
  using assms by simp

theorem cond_flat_step_witness:
  "fittingElements ((new_output_visitor 80)\<lparr>fittingElements := 1\<rparr>) \<noteq> 0
   \<and> map_option result
        (output_visit (cond_element '','' ''cont'' ''tail'' (Some 1))
           ((new_output_visitor 80)\<lparr>fittingElements := 1\<rparr>)) = Some '',''"
  using cond_flat_step [of "(new_output_visitor 80)\<lparr>fittingElements := 1\<rparr>" "'',''" "''cont''" "''tail''" "Some 1"]
  by (simp add: new_output_visitor_def)

text \<open>
  C8. A group end always succeeds. At \<open>fittingElements = 0\<close> it leaves the state as it is;
  otherwise it takes one off \<open>fittingElements\<close>, whose value as a number goes down by
  exactly one. So the counter never wraps around below zero.
\<close>

theorem gend_step:
  "\<exists>s'. output_visit (gend_element h) s = Some s'
      \<and> (fittingElements s = 0 \<longrightarrow> s' = s)
      \<and> (fittingElements s \<noteq> 0 \<longrightarrow>
            s' = s\<lparr>fittingElements := fittingElements s - 1\<rparr>
            \<and> unat (fittingElements s') + 1 = unat (fittingElements s))
      \<and> unat (fittingElements s') \<le> unat (fittingElements s)"
proof (cases "fittingElements s = 0")
  case True
  then show ?thesis by simp
next
  case False
  then have "0 < unat (fittingElements s)"
    by (simp add: unat_gt_0)
  with False show ?thesis
    by (simp add: unat_minus_one)
qed

theorem gend_step_witness:
  "\<exists>s'. output_visit (gend_element (Some 7)) (new_output_visitor 3) = Some s'
      \<and> (fittingElements (new_output_visitor 3) = 0 \<longrightarrow> s' = new_output_visitor 3)
      \<and> (fittingElements (new_output_visitor 3) \<noteq> 0 \<longrightarrow>
            s' = (new_output_visitor 3)\<lparr>fittingElements := fittingElements (new_output_visitor 3) - 1\<rparr>
            \<and> unat (fittingElements s') + 1 = unat (fittingElements (new_output_visitor 3)))
      \<and> unat (fittingElements s') \<le> unat (fittingElements (new_output_visitor 3))"
  using gend_step [of "Some 7" "new_output_visitor 3"] by simp

text \<open>
  C5. At width 3, \<open>funcall "f" [text "a", text "b"]\<close> is printed as \<open>f(a,\<close>, a newline, two
  spaces and \<open>b)\<close>. The group that the nest opens ends at position 6, beyond the right edge
  3, so the \<open>br\<close> after the comma breaks, and the nest was opened at column 2.
\<close>

theorem funcall_narrow:
  "pretty_print 3 (funcall ''f'' [make_text ''a'', make_text ''b''])
     = Some (''f(a,'' @ [newline] @ ''  b)'')
   \<and> corrected_stream (funcall ''f'' [make_text ''a'', make_text ''b'']) =
       Some [text_element ''f'' (Some 1), text_element ''('' (Some 2),
             nbeg_element None, gbeg_element (Some 6),
             text_element ''a'' (Some 3), text_element '','' (Some 4),
             cond_element '' '' [] [] (Some 5), text_element ''b'' (Some 6),
             gend_element (Some 6), nend_element (Some 6), text_element '')'' (Some 7)]"
  by code_simp

section \<open>Positions given by the annotator\<close>

lemma positioned_append:
  "positioned p (xs @ ys) = (positioned p xs \<and> positioned (p + sum_list (map elem_width xs)) ys)"
  by (induction xs arbitrary: p) (auto simp: add.assoc)

lemma sum_width_streams:
  assumes "\<And>d p. d \<in> set ds \<Longrightarrow> sum_list (map elem_width (stream_at c p d)) = width d"
  shows "sum_list (map elem_width (streams_at c p ds)) = sum_list (map width ds)"
  using assms by (induction ds arbitrary: p) auto

lemma sum_width_stream: "sum_list (map elem_width (stream_at c p d)) = width d"
proof (induction d arbitrary: p)
  case (Concat ds)
  then show ?case by (simp only: stream_at.simps width_Concat sum_width_streams)
qed auto

lemma positioned_streams:
  assumes "\<And>d p. d \<in> set ds \<Longrightarrow> positioned p (stream_at False p d)"
  shows "positioned p (streams_at False p ds)"
  using assms by (induction ds arbitrary: p) (auto simp: positioned_append sum_width_stream)

lemma positioned_stream: "positioned p (stream_at False p d)"
proof (induction d arbitrary: p)
  case (Concat ds)
  then show ?case by (simp only: stream_at.simps positioned_streams)
qed (auto simp: positioned_append sum_width_stream)

lemma positioned_nth:
  "positioned p es \<Longrightarrow> i < length es \<Longrightarrow> \<not> is_nbeg (es ! i) \<Longrightarrow> \<not> is_gbeg (es ! i) \<Longrightarrow>
   elem_hpos (es ! i) = Some (ucast (p + sum_list (map elem_width (take (Suc i) es))))"
proof (induction es arbitrary: p i)
  case Nil
  then show ?case by simp
next
  case (Cons e es)
  show ?case
  proof (cases i)
    case 0
    with Cons.prems show ?thesis by auto
  next
    case (Suc j)
    with Cons.prems Cons.IH [of "p + elem_width e" j] show ?thesis
      by (simp add: add.assoc)
  qed
qed



section \<open>The corrected stream\<close>

lemma hpos_defined_streams:
  assumes "\<And>d p. d \<in> set ds \<Longrightarrow>
             list_all (\<lambda>e. is_nbeg e \<or> elem_hpos e \<noteq> None) (stream_at True p d)"
  shows "list_all (\<lambda>e. is_nbeg e \<or> elem_hpos e \<noteq> None) (streams_at True p ds)"
  using assms by (induction ds arbitrary: p) simp_all

lemma hpos_defined_stream:
  "list_all (\<lambda>e. is_nbeg e \<or> elem_hpos e \<noteq> None) (stream_at True p d)"
proof (induction d arbitrary: p)
  case (Concat ds)
  then show ?case by (simp only: stream_at.simps hpos_defined_streams)
qed simp_all

lemma gbeg_matched_streams:
  assumes "\<And>d p st rest. d \<in> set ds \<Longrightarrow>
             gbeg_matched st (stream_at True p d @ rest) = gbeg_matched st rest"
  shows "gbeg_matched st (streams_at True p ds @ rest) = gbeg_matched st rest"
  using assms by (induction ds arbitrary: p) auto

lemma gbeg_matched_stream:
  "gbeg_matched st (stream_at True p d @ rest) = gbeg_matched st rest"
proof (induction d arbitrary: p st rest)
  case (Concat ds)
  then show ?case by (simp only: stream_at.simps gbeg_matched_streams)
qed auto

lemma unset_gbeg_streams:
  assumes "\<And>d p. d \<in> set ds \<Longrightarrow> map unset_gbeg (stream_at True p d) = stream_at False p d"
  shows "map unset_gbeg (streams_at True p ds) = streams_at False p ds"
  using assms by (induction ds arbitrary: p) auto

lemma unset_gbeg_stream: "map unset_gbeg (stream_at True p d) = stream_at False p d"
proof (induction d arbitrary: p)
  case (Concat ds)
  then show ?case by (simp only: stream_at.simps unset_gbeg_streams)
qed auto

lemma generate_children_unset:
  assumes "\<And>d p s. d \<in> set ds \<Longrightarrow>
             generate_stream fn d s = for_each fn (map unset_hpos (stream_at c p d)) s"
  shows "generate_children fn ds s = for_each fn (map unset_hpos (streams_at c p ds)) s"
  using assms
  by (induction ds arbitrary: p s) (auto simp: for_each_append split: option.splits)

lemma generate_unset:
  "generate_stream fn d s = for_each fn (map unset_hpos (stream_at c p d)) s"
proof (induction d arbitrary: p s)
  case (Concat ds)
  then show ?case
    by (simp only: generate_stream.simps stream_at.simps generate_children_unset [where c = c and p = p])
qed (auto simp: for_each_append split: option.splits)

lemma generated_stream_eq: "generated_stream d = Some (map unset_hpos (stream_at c p d))"
  by (simp add: generated_stream_def generate_unset [where c = c and p = p] for_each_collect)

lemma gbeg_at_end_streams:
  assumes "\<And>d p st rest. d \<in> set ds \<Longrightarrow>
             gbeg_at_end st p (stream_at True p d @ rest) = gbeg_at_end st (p + width d) rest"
  shows "gbeg_at_end st p (streams_at True p ds @ rest)
           = gbeg_at_end st (p + sum_list (map width ds)) rest"
  using assms by (induction ds arbitrary: p) (auto simp: add.assoc)

lemma gbeg_at_end_stream:
  "gbeg_at_end st p (stream_at True p d @ rest) = gbeg_at_end st (p + width d) rest"
proof (induction d arbitrary: p st rest)
  case (Concat ds)
  then show ?case by (simp only: stream_at.simps width_Concat gbeg_at_end_streams)
qed auto

lemma positioned_unset_gbeg: "positioned p (map unset_gbeg es) = positioned p es"
proof (induction es arbitrary: p)
  case Nil
  show ?case by simp
next
  case (Cons e es)
  then show ?case by (cases e) simp_all
qed

lemma positioned_corrected: "positioned p (stream_at True p d)"
  using positioned_stream [of p d] positioned_unset_gbeg [of p "stream_at True p d"]
  by (simp add: unset_gbeg_stream)

text \<open>
  C2. The stream that the corrector hands to the output visitor: every element but a nest
  beginning has a position; every group beginning has the position of its matching group
  end, which is the flat width of the stream up to that group end, the column at which the
  group ends in flat layout; every element other than a beginning has the flat width of the
  stream up to and including it; and it is the stream of the annotator, element by element
  and in the same order, but for the positions of the group beginnings (so it is also the
  generated stream but for positions). The output of \<open>pretty_print\<close> is the output visitor
  run over this stream.
\<close>

theorem corrector_invariants:
  "\<exists>gs as cs. generated_stream d = Some gs \<and> annotated_stream d = Some (width d, as)
     \<and> corrected_stream d = Some cs
     \<and> (\<forall>e\<in>set cs. \<not> is_nbeg e \<longrightarrow> elem_hpos e \<noteq> None)
     \<and> gbeg_matched [] cs
     \<and> gbeg_at_end [] 0 cs
     \<and> (\<forall>i<length cs. \<not> is_nbeg (cs ! i) \<and> \<not> is_gbeg (cs ! i) \<longrightarrow>
           elem_hpos (cs ! i) = Some (ucast (sum_list (map elem_width (take (Suc i) cs)))))
     \<and> map unset_gbeg cs = as
     \<and> map unset_hpos cs = gs
     \<and> (\<forall>w. pretty_print w d = render w cs)"
proof -
  define cs where "cs = stream_at True 0 d"
  have 1: "generated_stream d = Some (map unset_hpos cs)"
    unfolding cs_def by (rule generated_stream_eq)
  have 2: "annotated_stream d = Some (width d, map unset_gbeg cs)"
    unfolding cs_def by (simp add: annotated_stream_eq unset_gbeg_stream)
  have 3: "corrected_stream d = Some cs"
    unfolding cs_def by (rule corrected_stream_eq)
  have 4: "\<forall>e\<in>set cs. \<not> is_nbeg e \<longrightarrow> elem_hpos e \<noteq> None"
    unfolding cs_def using hpos_defined_stream [of 0 d] by (auto simp: list_all_iff)
  have 5: "gbeg_matched [] cs"
    unfolding cs_def using gbeg_matched_stream [of "[]" 0 d "[]"] by simp
  have 6: "gbeg_at_end [] 0 cs"
    unfolding cs_def using gbeg_at_end_stream [of "[]" 0 d "[]"] by simp
  have 7: "\<forall>i<length cs. \<not> is_nbeg (cs ! i) \<and> \<not> is_gbeg (cs ! i) \<longrightarrow>
           elem_hpos (cs ! i) = Some (ucast (sum_list (map elem_width (take (Suc i) cs))))"
    unfolding cs_def using positioned_nth [OF positioned_corrected [of 0 d]] by simp
  have 8: "\<forall>w. pretty_print w d = render w cs"
    unfolding cs_def by (simp add: pretty_print_render)
  from 1 2 3 4 5 6 7 8 show ?thesis by blast
qed

theorem corrector_invariants_witness:
  "\<exists>cs. corrected_stream (Nest (Concat [Text ''abc'', br, Text ''def''])) = Some cs
     \<and> gbeg_element (Some 7) \<in> set cs
     \<and> \<not> is_nbeg (gbeg_element (Some 7)) \<and> elem_hpos (gbeg_element (Some 7)) \<noteq> None
     \<and> gbeg_matched [] cs
     \<and> gbeg_at_end [] 0 cs
     \<and> 5 < length cs \<and> \<not> is_nbeg (cs ! 5) \<and> \<not> is_gbeg (cs ! 5)
     \<and> cs ! 5 = gend_element (Some 7)
     \<and> elem_hpos (cs ! 5) = Some (ucast (sum_list (map elem_width (take (Suc 5) cs))))
     \<and> pretty_print 5 (Nest (Concat [Text ''abc'', br, Text ''def''])) = render 5 cs"
proof -
  have "corrected_stream (Nest (Concat [Text ''abc'', br, Text ''def''])) =
          Some [nbeg_element None, gbeg_element (Some 7), text_element ''abc'' (Some 3),
                cond_element '' '' [] [] (Some 4), text_element ''def'' (Some 7),
                gend_element (Some 7), nend_element (Some 7)]"
    by code_simp
  with corrector_invariants [of "Nest (Concat [Text ''abc'', br, Text ''def''])"]
  show ?thesis by auto
qed

section \<open>Balance\<close>

lemma balanced_streams:
  assumes "\<And>d p st rest. d \<in> set ds \<Longrightarrow>
             balanced st (map unset_hpos (stream_at c p d) @ rest) = balanced st rest"
  shows "balanced st (map unset_hpos (streams_at c p ds) @ rest) = balanced st rest"
  using assms by (induction ds arbitrary: p) auto

lemma balanced_stream:
  "balanced st (map unset_hpos (stream_at c p d) @ rest) = balanced st rest"
proof (induction d arbitrary: p st rest)
  case (Concat ds)
  then show ?case by (simp only: stream_at.simps balanced_streams)
qed auto

lemma output_total_streams:
  assumes "\<And>d p s. d \<in> set ds \<Longrightarrow>
             \<exists>s'. for_each output_visit (stream_at True p d) s = Some s' \<and> indent s' = indent s"
  shows "\<exists>s'. for_each output_visit (streams_at True p ds) s = Some s' \<and> indent s' = indent s"
  using assms
proof (induction ds arbitrary: p s)
  case Nil
  then show ?case by simp
next
  case (Cons d ds)
  from Cons.prems [of d p s] obtain s1 where
    s1: "for_each output_visit (stream_at True p d) s = Some s1" "indent s1 = indent s"
    by auto
  from Cons.IH [of "p + width d" s1] Cons.prems obtain s2 where
    "for_each output_visit (streams_at True (p + width d) ds) s1 = Some s2" "indent s2 = indent s1"
    by auto
  with s1 show ?case by (simp add: for_each_append)
qed

lemma output_gbeg_total:
  "\<exists>s'. output_visit (gbeg_element (Some h)) s = Some s' \<and> indent s' = indent s"
  by simp

lemma output_gend_total:
  "\<exists>s'. output_visit (gend_element h) s = Some s' \<and> indent s' = indent s"
  by simp

lemma output_total_group:
  assumes "\<And>s. \<exists>s'. for_each output_visit es s = Some s' \<and> indent s' = indent s"
  shows "\<exists>s'. for_each output_visit (gbeg_element (Some h) # es @ [gend_element h']) s = Some s'
            \<and> indent s' = indent s"
proof -
  obtain s1 where s1: "output_visit (gbeg_element (Some h)) s = Some s1" "indent s1 = indent s"
    using output_gbeg_total by blast
  obtain s2 where s2: "for_each output_visit es s1 = Some s2" "indent s2 = indent s1"
    using assms by blast
  obtain s3 where s3: "output_visit (gend_element h') s2 = Some s3" "indent s3 = indent s2"
    using output_gend_total by blast
  show ?thesis
    using s1 s2 s3 by (simp add: for_each_append del: output_visit.simps)
qed

lemma output_total_stream:
  "\<exists>s'. for_each output_visit (stream_at True p d) s = Some s' \<and> indent s' = indent s"
proof (induction d arbitrary: p s)
  case (Text t)
  show ?case by simp
next
  case (Cond small cont tail)
  show ?case by (simp add: Let_def)
next
  case (Concat ds)
  then show ?case by (simp only: stream_at.simps output_total_streams)
next
  case (Group d)
  show ?case
    unfolding stream_at.simps if_True
    by (rule output_total_group) (rule Group)
next
  case (Nest d)
  define h :: size_t where "h = ucast (p + width d)"
  define G where "G = gbeg_element (Some h) # stream_at True p d @ [gend_element (Some h)]"
  have eq: "stream_at True p (Nest d) = nbeg_element None # G @ [nend_element (Some h)]"
    by (simp add: G_def h_def)
  obtain s1 where s1: "for_each output_visit G (s\<lparr>indent := indent s @ [hpos s]\<rparr>) = Some s1"
       "indent s1 = indent s @ [hpos s]"
    unfolding G_def
    using output_total_group [of "stream_at True p d" h "Some h" "s\<lparr>indent := indent s @ [hpos s]\<rparr>"] Nest
    by auto
  show ?case
    by (subst eq) (simp add: s1 for_each_append)
qed

text \<open>
  C9. The generated stream of any document is balanced: group and nest beginnings and ends
  match like brackets. The corrector gets through it without failing, so \<open>lookahead\<close> is
  not empty at any group end; and the output visitor gets through the corrected stream
  without failing, so \<open>indent\<close> is not empty at any nest end.
\<close>

theorem streams_balanced:
  "\<exists>gs cs r. generated_stream d = Some gs \<and> balanced [] gs
      \<and> corrected_stream d = Some cs \<and> pretty_print w d = Some r"
proof -
  obtain s' where "for_each output_visit (stream_at True 0 d) (new_output_visitor w) = Some s'"
    using output_total_stream by blast
  then show ?thesis
    using balanced_stream [of "[]" True 0 d "[]"]
    by (simp add: generated_stream_eq [of d True 0] corrected_stream_eq pretty_print_render
          render_def)
qed

section \<open>Fitting groups\<close>

lemma depth_child: "d \<in> set ds \<Longrightarrow> depth d \<le> depth (Concat ds)"
  by (induction ds) auto

lemma unat_Suc_no_wrap:
  fixes f :: uint
  assumes "unat f + 1 < 2 ^ 32"
  shows "unat (f + 1) = unat f + 1" and "f + 1 \<noteq> 0"
proof -
  show u: "unat (f + 1) = unat f + 1"
    using assms by (simp add: unat_word_ariths)
  show "f + 1 \<noteq> 0"
  proof
    assume "f + 1 = 0"
    with u show False by simp
  qed
qed

lemma flat_group:
  assumes f: "fittingElements s \<noteq> 0" "unat (fittingElements s) + 1 < 2 ^ 32"
    and run: "\<And>s1. fittingElements s1 = fittingElements s + 1 \<Longrightarrow>
                for_each output_visit es s1 =
                  Some (s1\<lparr>result := result s1 @ txt, hpos := hpos s1 + w\<rparr>)"
  shows "for_each output_visit (gbeg_element h # es @ [gend_element h']) s =
           Some (s\<lparr>result := result s @ txt, hpos := hpos s + w\<rparr>)"
proof -
  have nz: "fittingElements s + 1 \<noteq> 0"
    using f(2) by (rule unat_Suc_no_wrap)
  show ?thesis
    using f(1) nz by (simp add: for_each_append run)
qed

lemma flat_streams:
  assumes "\<And>d p s. d \<in> set ds \<Longrightarrow> fittingElements s \<noteq> 0 \<Longrightarrow>
              unat (fittingElements s) + depth d < 2 ^ 32 \<Longrightarrow>
              for_each output_visit (stream_at True p d) s =
                Some (s\<lparr>result := result s @ flat_text d, hpos := hpos s + width d\<rparr>)"
    and "fittingElements s \<noteq> 0"
    and "\<forall>d\<in>set ds. unat (fittingElements s) + depth d < 2 ^ 32"
  shows "for_each output_visit (streams_at True p ds) s =
           Some (s\<lparr>result := result s @ concat (map flat_text ds),
                    hpos := hpos s + sum_list (map width ds)\<rparr>)"
  using assms
proof (induction ds arbitrary: p s)
  case Nil
  then show ?case by simp
next
  case (Cons d ds)
  let ?s1 = "s\<lparr>result := result s @ flat_text d, hpos := hpos s + width d\<rparr>"
  have 1: "for_each output_visit (stream_at True p d) s = Some ?s1"
    using Cons.prems by simp
  have 2: "for_each output_visit (streams_at True (p + width d) ds) ?s1 =
             Some (?s1\<lparr>result := result ?s1 @ concat (map flat_text ds),
                    hpos := hpos ?s1 + sum_list (map width ds)\<rparr>)"
    using Cons.prems by (intro Cons.IH) simp_all
  show ?case
    by (simp add: for_each_append 1 2 add.assoc)
qed

lemma flat_stream:
  assumes "fittingElements s \<noteq> 0" and "unat (fittingElements s) + depth d < 2 ^ 32"
  shows "for_each output_visit (stream_at True p d) s =
           Some (s\<lparr>result := result s @ flat_text d, hpos := hpos s + width d\<rparr>)"
  using assms
proof (induction d arbitrary: p s)
  case (Text t)
  then show ?case by simp
next
  case (Cond small cont tail)
  then show ?case by simp
next
  case (Concat ds)
  have all: "\<forall>d\<in>set ds. unat (fittingElements s) + depth d < 2 ^ 32"
    using Concat.prems(2) depth_child [of _ ds] by fastforce
  show ?case
    unfolding stream_at.simps flat_text.simps width_Concat
  proof (rule flat_streams)
    show "fittingElements s \<noteq> 0" by (rule Concat.prems)
    show "\<forall>d\<in>set ds. unat (fittingElements s) + depth d < 2 ^ 32" by (rule all)
  qed (rule Concat.IH)
next
  case (Group d)
  show ?case
    unfolding stream_at.simps flat_text.simps width.simps
  proof (rule flat_group)
    show "fittingElements s \<noteq> 0" by (rule Group.prems)
    show "unat (fittingElements s) + 1 < 2 ^ 32" using Group.prems(2) by simp
    fix s1 :: output_visitor
    assume s1: "fittingElements s1 = fittingElements s + 1"
    have "unat (fittingElements s) + 1 < 2 ^ 32" using Group.prems(2) by simp
    then have "unat (fittingElements s1) = unat (fittingElements s) + 1" "fittingElements s1 \<noteq> 0"
      unfolding s1 by (rule unat_Suc_no_wrap)+
    with Group.prems(2) show "for_each output_visit (stream_at True p d) s1 =
           Some (s1\<lparr>result := result s1 @ flat_text d, hpos := hpos s1 + width d\<rparr>)"
      by (intro Group.IH) simp_all
  qed
next
  case (Nest d)
  define h :: size_t where "h = ucast (p + width d)"
  define G where "G = gbeg_element (Some h) # stream_at True p d @ [gend_element (Some h)]"
  have eq: "stream_at True p (Nest d) = nbeg_element None # G @ [nend_element (Some h)]"
    by (simp add: G_def h_def)
  let ?s0 = "s\<lparr>indent := indent s @ [hpos s]\<rparr>"
  have "for_each output_visit G ?s0 =
           Some (?s0\<lparr>result := result ?s0 @ flat_text d, hpos := hpos ?s0 + width d\<rparr>)"
    unfolding G_def
  proof (rule flat_group)
    show "fittingElements ?s0 \<noteq> 0" using Nest.prems by simp
    show "unat (fittingElements ?s0) + 1 < 2 ^ 32" using Nest.prems(2) by simp
    fix s1 :: output_visitor
    assume s1: "fittingElements s1 = fittingElements ?s0 + 1"
    have "unat (fittingElements s) + 1 < 2 ^ 32" using Nest.prems(2) by simp
    then have "unat (fittingElements s + 1) = unat (fittingElements s) + 1" "fittingElements s + 1 \<noteq> 0"
      by (rule unat_Suc_no_wrap)+
    with Nest.prems(2) s1 show "for_each output_visit (stream_at True p d) s1 =
           Some (s1\<lparr>result := result s1 @ flat_text d, hpos := hpos s1 + width d\<rparr>)"
      by (intro Nest.IH) simp_all
  qed
  then show ?case
    by (subst eq) (simp add: for_each_append)
qed

lemma width_flat_text: "width d = of_nat (length (flat_text d))"
proof (induction d)
  case (Concat ds)
  then have "sum_list (map width ds) = of_nat (length (concat (map flat_text ds)))"
    by (induction ds) simp_all
  then show ?case by (simp only: width_Concat flat_text.simps)
qed simp_all

lemma unat_add_len:
  fixes p :: uint
  assumes "unat p + n < 2 ^ 32"
  shows "unat (p + of_nat n) = unat p + n"
proof -
  have "n < 2 ^ 32" using assms by simp
  then have "unat (of_nat n :: uint) = n"
    by (simp add: unat_of_nat)
  with assms show ?thesis
    by (simp add: unat_word_ariths)
qed

lemma unat_add_width:
  assumes "unat p + length (flat_text d) < 2 ^ 32"
  shows "unat (p + width d) = unat p + length (flat_text d)"
  using assms by (simp add: width_flat_text unat_add_len)

lemma fit_group:
  assumes f: "fittingElements s = 0" "(ucast h :: uint) \<le> rightEdge s"
    and run: "\<And>s1. fittingElements s1 = 1 \<Longrightarrow>
                for_each output_visit es s1 =
                  Some (s1\<lparr>result := result s1 @ txt, hpos := hpos s1 + w\<rparr>)"
  shows "for_each output_visit (gbeg_element (Some h) # es @ [gend_element h']) s =
           Some (s\<lparr>result := result s @ txt, hpos := hpos s + w\<rparr>)"
proof -
  have "s\<lparr>fittingElements := 0\<rparr> = s"
    using f(1) by (cases s) simp
  then have "s\<lparr>result := result s @ txt, hpos := hpos s + w, fittingElements := 0\<rparr>
           = s\<lparr>result := result s @ txt, hpos := hpos s + w\<rparr>"
    by (cases s) simp
  with f show ?thesis
    by (simp add: for_each_append run)
qed

lemma top_group:
  assumes "fittingElements s = 0"
    and "unat p + length (flat_text d) \<le> unat (rightEdge s)"
    and "Suc (depth d) < 2 ^ 32"
  shows "for_each output_visit
           (gbeg_element (Some (ucast (p + width d))) # stream_at True p d @ [gend_element h']) s =
         Some (s\<lparr>result := result s @ flat_text d, hpos := hpos s + width d\<rparr>)"
proof (rule fit_group)
  show "fittingElements s = 0" by fact
  have "unat (rightEdge s) < 2 ^ 32"
    using unsigned_less [of "rightEdge s"] by simp
  with assms(2) have "unat (p + width d) = unat p + length (flat_text d)"
    by (intro unat_add_width) simp
  with assms(2) show "(ucast (ucast (p + width d) :: size_t) :: uint) \<le> rightEdge s"
    by (simp add: ucast_ucast_up word_le_nat_alt)
  fix s1 :: output_visitor
  assume "fittingElements s1 = 1"
  with assms(3) show "for_each output_visit (stream_at True p d) s1 =
      Some (s1\<lparr>result := result s1 @ flat_text d, hpos := hpos s1 + width d\<rparr>)"
    by (intro flat_stream) simp_all
qed

lemma top_streams:
  assumes "\<And>d p s. d \<in> set ds \<Longrightarrow> fittingElements s = 0 \<Longrightarrow> conds_grouped d \<Longrightarrow>
              unat p + length (flat_text d) \<le> unat (rightEdge s) \<Longrightarrow> depth d < 2 ^ 32 \<Longrightarrow>
              for_each output_visit (stream_at True p d) s =
                Some (s\<lparr>result := result s @ flat_text d, hpos := hpos s + width d\<rparr>)"
    and "fittingElements s = 0"
    and "list_all conds_grouped ds"
    and "unat p + length (concat (map flat_text ds)) \<le> unat (rightEdge s)"
    and "\<forall>d\<in>set ds. depth d < 2 ^ 32"
  shows "for_each output_visit (streams_at True p ds) s =
           Some (s\<lparr>result := result s @ concat (map flat_text ds),
                    hpos := hpos s + sum_list (map width ds)\<rparr>)"
  using assms
proof (induction ds arbitrary: p s)
  case Nil
  then show ?case by simp
next
  case (Cons d ds)
  let ?s1 = "s\<lparr>result := result s @ flat_text d, hpos := hpos s + width d\<rparr>"
  have 1: "for_each output_visit (stream_at True p d) s = Some ?s1"
    using Cons.prems by simp
  have "unat (rightEdge s) < 2 ^ 32"
    using unsigned_less [of "rightEdge s"] by simp
  with Cons.prems(4) have "unat (p + width d) = unat p + length (flat_text d)"
    by (intro unat_add_width) simp
  with Cons.prems have 2: "for_each output_visit (streams_at True (p + width d) ds) ?s1 =
             Some (?s1\<lparr>result := result ?s1 @ concat (map flat_text ds),
                    hpos := hpos ?s1 + sum_list (map width ds)\<rparr>)"
    by (intro Cons.IH) simp_all
  show ?case
    by (simp add: for_each_append 1 2 add.assoc)
qed

lemma top_stream:
  assumes "fittingElements s = 0" and "conds_grouped d"
    and "unat p + length (flat_text d) \<le> unat (rightEdge s)" and "depth d < 2 ^ 32"
  shows "for_each output_visit (stream_at True p d) s =
           Some (s\<lparr>result := result s @ flat_text d, hpos := hpos s + width d\<rparr>)"
  using assms
proof (induction d arbitrary: p s)
  case (Text t)
  then show ?case by simp
next
  case (Cond small cont tail)
  then show ?case by simp
next
  case (Concat ds)
  have all: "\<forall>d\<in>set ds. depth d < 2 ^ 32"
    using Concat.prems(4) depth_child [of _ ds] by fastforce
  show ?case
    unfolding stream_at.simps flat_text.simps width_Concat
  proof (rule top_streams)
    show "fittingElements s = 0" by (rule Concat.prems)
    show "list_all conds_grouped ds" using Concat.prems(2) by simp
    show "unat p + length (concat (map flat_text ds)) \<le> unat (rightEdge s)"
      using Concat.prems(3) by simp
    show "\<forall>d\<in>set ds. depth d < 2 ^ 32" by (rule all)
  qed (rule Concat.IH)
next
  case (Group d)
  show ?case
    unfolding stream_at.simps flat_text.simps width.simps if_True
    using Group.prems by (intro top_group) simp_all
next
  case (Nest d)
  define h :: size_t where "h = ucast (p + width d)"
  define G where "G = gbeg_element (Some h) # stream_at True p d @ [gend_element (Some h)]"
  have eq: "stream_at True p (Nest d) = nbeg_element None # G @ [nend_element (Some h)]"
    by (simp add: G_def h_def)
  let ?s0 = "s\<lparr>indent := indent s @ [hpos s]\<rparr>"
  have "for_each output_visit G ?s0 =
           Some (?s0\<lparr>result := result ?s0 @ flat_text d, hpos := hpos ?s0 + width d\<rparr>)"
    unfolding G_def h_def
    using Nest.prems by (intro top_group) simp_all
  then show ?case
    by (subst eq) (simp add: for_each_append)
qed

lemma flat_fit_render:
  assumes "conds_grouped d" and "length (flat_text d) < 2 ^ 32" and "width d \<le> w"
    and "depth d < 2 ^ 32"
  shows "pretty_print w d = Some (flat_text d)"
proof -
  have "unat (width d) = length (flat_text d)"
    using unat_add_width [of 0 d] assms(2) by simp
  with assms(3) have "unat (0 :: uint) + length (flat_text d) \<le> unat (rightEdge (new_output_visitor w))"
    by (simp add: word_le_nat_alt new_output_visitor_def)
  with assms have "for_each output_visit (stream_at True 0 d) (new_output_visitor w) =
      Some ((new_output_visitor w)\<lparr>result := result (new_output_visitor w) @ flat_text d,
                 hpos := hpos (new_output_visitor w) + width d\<rparr>)"
    by (intro top_stream) (simp_all add: new_output_visitor_def)
  then show ?thesis
    by (simp add: pretty_print_render render_def new_output_visitor_def)
qed

lemma count_newlines_append [simp]:
  "count_newlines (a @ b) = count_newlines a + count_newlines b"
  by (simp add: count_newlines_def)

lemma count_newlines_Nil [simp]: "count_newlines [] = 0"
  by (simp add: count_newlines_def)

lemma count_newlines_zero: "count_newlines s = 0 \<longleftrightarrow> newline \<notin> set s"
  by (auto simp: count_newlines_def filter_empty_conv)

lemma count_newlines_flat: "small_plain d \<Longrightarrow> count_newlines (flat_text d) = text_newlines d"
proof (induction d)
  case (Concat ds)
  then have "count_newlines (concat (map flat_text ds)) = sum_list (map text_newlines ds)"
    by (induction ds) simp_all
  then show ?case by simp
qed (simp_all add: count_newlines_zero)

lemma elem_flat_streams:
  assumes "\<And>d p. d \<in> set ds \<Longrightarrow>
             concat (map (elem_flat \<circ> unset_hpos) (stream_at c p d)) = flat_text d"
  shows "concat (map (elem_flat \<circ> unset_hpos) (streams_at c p ds)) = concat (map flat_text ds)"
  using assms by (induction ds arbitrary: p) simp_all

lemma elem_flat_stream:
  "concat (map (elem_flat \<circ> unset_hpos) (stream_at c p d)) = flat_text d"
proof (induction d arbitrary: p)
  case (Concat ds)
  then show ?case by (simp only: stream_at.simps flat_text.simps elem_flat_streams)
qed simp_all

text \<open>
  C1, amended. A conditional outside every group and nest always breaks, so the flat
  layout needs every conditional to lie inside a group or a nest. For such a document
  \<open>d\<close> with \<open>width d \<le> w\<close>, flat length below \<open>2^32\<close> and groups nested less than \<open>2^32\<close>
  deep, \<open>pretty_print w d\<close> is the concatenation, in the order of the generated stream, of
  every text and the \<open>small\<close> of every conditional; it holds no newline when no text and no
  \<open>small\<close> holds one.
\<close>

theorem flat_fit:
  assumes "conds_grouped d" and "length (flat_text d) < 2 ^ 32" and "width d \<le> w"
    and "depth d < 2 ^ 32"
  shows "\<exists>gs. generated_stream d = Some gs
           \<and> pretty_print w d = Some (concat (map elem_flat gs))
           \<and> concat (map elem_flat gs) = flat_text d
           \<and> (text_newlines d = 0 \<and> small_plain d \<longrightarrow> newline \<notin> set (concat (map elem_flat gs)))"
proof -
  define gs where "gs = map unset_hpos (stream_at True 0 d)"
  have g: "generated_stream d = Some gs"
    unfolding gs_def by (rule generated_stream_eq)
  have f: "concat (map elem_flat gs) = flat_text d"
    unfolding gs_def using elem_flat_stream [of True 0 d] by simp
  have n: "text_newlines d = 0 \<and> small_plain d \<longrightarrow> newline \<notin> set (flat_text d)"
    using count_newlines_flat [of d] by (auto simp: count_newlines_zero)
  have p: "pretty_print w d = Some (flat_text d)"
    using assms by (rule flat_fit_render)
  have "generated_stream d = Some gs
           \<and> pretty_print w d = Some (concat (map elem_flat gs))
           \<and> concat (map elem_flat gs) = flat_text d
           \<and> (text_newlines d = 0 \<and> small_plain d \<longrightarrow> newline \<notin> set (concat (map elem_flat gs)))"
    unfolding f by (intro conjI g p refl n)
  then show ?thesis ..
qed

theorem flat_fit_witness:
  "conds_grouped (funcall ''f'' [Text ''a'', Text ''b''])
   \<and> length (flat_text (funcall ''f'' [Text ''a'', Text ''b''])) < 2 ^ 32
   \<and> width (funcall ''f'' [Text ''a'', Text ''b'']) \<le> 80
   \<and> depth (funcall ''f'' [Text ''a'', Text ''b'']) < 2 ^ 32
   \<and> text_newlines (funcall ''f'' [Text ''a'', Text ''b'']) = 0
   \<and> small_plain (funcall ''f'' [Text ''a'', Text ''b''])
   \<and> pretty_print 80 (funcall ''f'' [Text ''a'', Text ''b'']) = Some ''f(a, b)''
   \<and> newline \<notin> set ''f(a, b)''"
proof -
  have d: "funcall ''f'' [Text ''a'', Text ''b''] =
        Concat [Text ''f'', Concat [Text ''('', Nest (Concat [Text ''a'', Text '','', br, Text ''b'']), Text '')'']]"
    by (simp add: funcall_def arglist_def comma_separated_def make_concat_def make_nest_def
          make_text_def)
  have h: "conds_grouped (funcall ''f'' [Text ''a'', Text ''b''])"
      "length (flat_text (funcall ''f'' [Text ''a'', Text ''b''])) < 2 ^ 32"
      "width (funcall ''f'' [Text ''a'', Text ''b'']) \<le> 80"
      "depth (funcall ''f'' [Text ''a'', Text ''b'']) < 2 ^ 32"
    by (simp_all add: d br_def)
  have n: "text_newlines (funcall ''f'' [Text ''a'', Text ''b'']) = 0"
      "small_plain (funcall ''f'' [Text ''a'', Text ''b''])"
    by (simp_all add: d br_def count_newlines_def newline_def)
  have f: "flat_text (funcall ''f'' [Text ''a'', Text ''b'']) = ''f(a, b)''"
    by (simp add: d br_def)
  from flat_fit [OF h] obtain gs where
    "pretty_print 80 (funcall ''f'' [Text ''a'', Text ''b'']) = Some (concat (map elem_flat gs))"
    "concat (map elem_flat gs) = flat_text (funcall ''f'' [Text ''a'', Text ''b''])"
    "text_newlines (funcall ''f'' [Text ''a'', Text ''b'']) = 0
       \<and> small_plain (funcall ''f'' [Text ''a'', Text ''b''])
     \<longrightarrow> newline \<notin> set (concat (map elem_flat gs))"
    by blast
  with h n show ?thesis
    by (simp only: f simp_thms)
qed

text \<open>
  C1 as stated fails: \<open>a\<close>, \<open>br\<close>, \<open>b\<close> in a plain concatenation has width 3, and at
  width 80 the \<open>br\<close> breaks.
\<close>

theorem flat_fit_counterexample:
  "width (Concat [Text ''a'', br, Text ''b'']) \<le> 80
   \<and> flat_text (Concat [Text ''a'', br, Text ''b'']) = ''a b''
   \<and> pretty_print 80 (Concat [Text ''a'', br, Text ''b'']) = Some (''a'' @ [newline] @ ''b'')
   \<and> newline \<in> set (''a'' @ [newline] @ ''b'')"
  by code_simp

section \<open>Width 0\<close>

lemma all_break_append:
  "all_break s (xs @ ys) =
     (all_break s xs \<and> (case for_each output_visit xs s of None \<Rightarrow> False
                          | Some s' \<Rightarrow> all_break s' ys))"
proof (induction xs arbitrary: s)
  case Nil
  show ?case by simp
next
  case (Cons x xs)
  show ?case
    by (cases "output_visit x s") (auto simp del: output_visit.simps simp add: Cons)
qed

lemma all_break_no_cond:
  "list_all (\<lambda>e. \<not> is_cond e) es \<Longrightarrow> for_each output_visit es s = Some s' \<Longrightarrow> all_break s es"
proof (induction es arbitrary: s)
  case Nil
  show ?case by simp
next
  case (Cons x xs)
  then show ?case
    by (cases "output_visit x s") (auto simp del: output_visit.simps)
qed

lemma narrow_run_append:
  assumes "narrow_run s xs p1 L1"
    and "\<And>s1. narrow_inv p1 s1 \<Longrightarrow> indent s1 = indent s \<Longrightarrow> hpos s1 = snd L1 \<Longrightarrow>
            narrow_run s1 ys p2 L2"
  shows "narrow_run s (xs @ ys) p2 (fst L1 @ fst L2, snd L2)"
proof -
  from assms(1) obtain s1 where s1: "for_each output_visit xs s = Some s1" "narrow_inv p1 s1"
      "indent s1 = indent s" "result s1 = result s @ fst L1" "hpos s1 = snd L1" "all_break s xs"
    unfolding narrow_run_def by blast
  from assms(2) [OF s1(2,3,5)] obtain s2 where s2: "for_each output_visit ys s1 = Some s2"
      "narrow_inv p2 s2" "indent s2 = indent s1" "result s2 = result s1 @ fst L2"
      "hpos s2 = snd L2" "all_break s1 ys"
    unfolding narrow_run_def by blast
  show ?thesis
    unfolding narrow_run_def
    using s1 s2 by (simp add: for_each_append all_break_append)
qed

lemma narrow_inv_mono: "narrow_inv p s \<Longrightarrow> p \<le> p' \<Longrightarrow> narrow_inv p' s"
  by (auto simp: narrow_inv_def list_all_iff)

lemma le_add_len:
  fixes p :: uint
  assumes "unat p + n < 2 ^ 32"
  shows "p \<le> p + of_nat n"
  using unat_add_len [OF assms] by (simp add: word_le_nat_alt)

lemma narrow_text:
  assumes "narrow_inv p s" and "unat p + length t < 2 ^ 32"
  shows "narrow_run s [text_element t h] (p + of_nat (length t)) (t, hpos s + of_nat (length t))"
proof -
  have "unat (hpos s) \<le> unat p"
    using assms(1) by (simp add: narrow_inv_def word_le_nat_alt)
  with assms(2) have "unat (hpos s + of_nat (length t)) = unat (hpos s) + length t"
    by (intro unat_add_len) simp
  with \<open>unat (hpos s) \<le> unat p\<close> unat_add_len [OF assms(2)]
  have "hpos s + of_nat (length t) \<le> p + of_nat (length t)"
    by (simp add: word_le_nat_alt)
  moreover have "narrow_inv (p + of_nat (length t)) s"
    using assms(1) le_add_len [OF assms(2)] by (rule narrow_inv_mono)
  ultimately show ?thesis
    by (simp add: narrow_run_def narrow_inv_def)
qed

lemma top_indent_le:
  assumes "list_all (\<lambda>i. i \<le> p) ind"
  shows "(if ind = [] then 0 else last ind) \<le> (p :: uint)"
  using assms by (cases "ind = []") (auto simp: list_all_iff)

lemma narrow_cond:
  assumes "narrow_inv p s" and "unat p + length small < 2 ^ 32" and "length cont \<le> length small"
  shows "narrow_run s [cond_element small tail cont (Some (ucast (p + of_nat (length small))))]
           (p + of_nat (length small)) (break_layout (indent s) (hpos s) (Cond small cont tail))"
proof -
  define i where "i = (if indent s = [] then 0 else last (indent s))"
  define p' :: uint where "p' = p + of_nat (length small)"
  define h' where "h' = i + of_nat (length cont)"
  have inv: "page_width s = 0" "fittingElements s = 0" "list_all (\<lambda>i. i \<le> p) (indent s)"
    using assms(1) by (simp_all add: narrow_inv_def)
  have "i \<le> p"
    unfolding i_def using inv(3) by (rule top_indent_le)
  then have i: "unat i \<le> unat p"
    by (simp add: word_le_nat_alt)
  have p': "unat p' = unat p + length small"
    unfolding p'_def using assms(2) by (rule unat_add_len)
  have "unat i + length cont < 2 ^ 32"
    using i assms(2,3) by simp
  then have "unat h' = unat i + length cont"
    unfolding h'_def by (rule unat_add_len)
  with i p' assms(3) have h': "h' \<le> p'"
    by (simp add: word_le_nat_alt)
  then have re: "p' - h' \<le> p'"
    by (rule word_sub_le)
  have "p \<le> p'"
    unfolding p'_def using assms(2) by (rule le_add_len)
  with inv(3) have ind: "list_all (\<lambda>i. i \<le> p') (indent s)"
    by (auto simp: list_all_iff)
  have step: "output_visit (cond_element small tail cont (Some (ucast p'))) s =
      Some (s\<lparr>result := result s @ tail @ [newline] @ replicate (unat i) CHR '' '' @ cont,
               fittingElements := 0, hpos := h', rightEdge := p' - h'\<rparr>)"
    using inv(1,2) by (simp add: Let_def i_def h'_def ucast_add_down ucast_ucast_up)
  have lay: "break_layout (indent s) (hpos s) (Cond small cont tail) =
      (tail @ [newline] @ replicate (unat i) CHR '' '' @ cont, h')"
    by (simp add: Let_def i_def h'_def)
  show ?thesis
    unfolding narrow_run_def lay p'_def [symmetric]
    using inv(1,2) h' re ind
    by (simp add: step narrow_inv_def del: output_visit.simps)
qed

lemma narrow_group_break:
  assumes "narrow_inv p s" and "\<not> (ucast h :: uint) \<le> rightEdge s" and "narrow_run s es p' L"
  shows "narrow_run s (gbeg_element (Some h) # es @ [gend_element h']) p' L"
proof -
  have f: "fittingElements s = 0"
    using assms(1) by (simp add: narrow_inv_def)
  then have same: "s\<lparr>fittingElements := 0\<rparr> = s"
    by (cases s) simp
  from assms(3) obtain s1 where s1: "for_each output_visit es s = Some s1" "narrow_inv p' s1"
      "indent s1 = indent s" "result s1 = result s @ fst L" "hpos s1 = snd L" "all_break s es"
    unfolding narrow_run_def by blast
  have f1: "fittingElements s1 = 0"
    using s1(2) by (simp add: narrow_inv_def)
  show ?thesis
    unfolding narrow_run_def
    using f assms(2) s1 f1
    by (simp add: same for_each_append all_break_append)
qed

lemma narrow_group_fit:
  assumes "narrow_inv p s" and "(ucast h :: uint) \<le> rightEdge s"
    and run: "\<And>s1. fittingElements s1 = 1 \<Longrightarrow> for_each output_visit es s1 = Some s1"
    and "list_all (\<lambda>e. \<not> is_cond e) es"
  shows "narrow_run s (gbeg_element (Some h) # es @ [gend_element h']) p ([], hpos s)"
proof -
  have f: "fittingElements s = 0"
    using assms(1) by (simp add: narrow_inv_def)
  then have same: "s\<lparr>fittingElements := 0\<rparr> = s"
    by (cases s) simp
  let ?s1 = "s\<lparr>fittingElements := 1\<rparr>"
  have r: "for_each output_visit es ?s1 = Some ?s1"
    by (rule run) simp
  have b: "all_break ?s1 es"
    using assms(4) r by (rule all_break_no_cond)
  show ?thesis
    unfolding narrow_run_def
    using f assms(1,2) r b
    by (simp add: same for_each_append all_break_append)
qed

lemma narrow_nest:
  assumes "narrow_inv p s" and "narrow_run (s\<lparr>indent := indent s @ [hpos s]\<rparr>) G p' L"
  shows "narrow_run s (nbeg_element h # G @ [nend_element h']) p' L"
proof -
  let ?s0 = "s\<lparr>indent := indent s @ [hpos s]\<rparr>"
  from assms(2) obtain s1 where s1: "for_each output_visit G ?s0 = Some s1" "narrow_inv p' s1"
      "indent s1 = indent s @ [hpos s]" "result s1 = result s @ fst L" "hpos s1 = snd L"
      "all_break ?s0 G"
    unfolding narrow_run_def by auto
  have "narrow_inv p' (s1\<lparr>indent := indent s\<rparr>)"
    using s1(2,3) by (simp add: narrow_inv_def)
  then show ?thesis
    unfolding narrow_run_def
    using s1 by (simp add: for_each_append all_break_append)
qed

lemma empty_flat_streams:
  assumes "\<And>d p ind col. d \<in> set ds \<Longrightarrow> conds_proper d \<Longrightarrow> flat_text d = [] \<Longrightarrow>
             list_all (\<lambda>e. \<not> is_cond e) (stream_at c p d) \<and> break_layout ind col d = ([], col)"
    and "list_all conds_proper ds" and "concat (map flat_text ds) = []"
  shows "list_all (\<lambda>e. \<not> is_cond e) (streams_at c p ds) \<and> break_layouts ind col ds = ([], col)"
  using assms by (induction ds arbitrary: p col) simp_all

lemma empty_flat:
  assumes "conds_proper d" and "flat_text d = []"
  shows "list_all (\<lambda>e. \<not> is_cond e) (stream_at c p d) \<and> break_layout ind col d = ([], col)"
  using assms
proof (induction d arbitrary: p ind col)
  case (Concat ds)
  show ?case
    unfolding stream_at.simps break_layout.simps
  proof (rule empty_flat_streams)
    show "list_all conds_proper ds" using Concat.prems by simp
    show "concat (map flat_text ds) = []" using Concat.prems by simp
  qed (rule Concat.IH)
qed simp_all

lemma narrow_streams:
  assumes "\<And>d p s. d \<in> set ds \<Longrightarrow> narrow_inv p s \<Longrightarrow> conds_proper d \<Longrightarrow>
              unat p + length (flat_text d) < 2 ^ 32 \<Longrightarrow> depth d < 2 ^ 32 \<Longrightarrow>
              narrow_run s (stream_at True p d) (p + width d) (break_layout (indent s) (hpos s) d)"
    and "narrow_inv p s"
    and "list_all conds_proper ds"
    and "unat p + length (concat (map flat_text ds)) < 2 ^ 32"
    and "\<forall>d\<in>set ds. depth d < 2 ^ 32"
  shows "narrow_run s (streams_at True p ds) (p + sum_list (map width ds))
           (break_layouts (indent s) (hpos s) ds)"
  using assms
proof (induction ds arbitrary: p s)
  case Nil
  then show ?case by (simp add: narrow_run_def)
next
  case (Cons d ds)
  define L1 where "L1 = break_layout (indent s) (hpos s) d"
  define L2 where "L2 = break_layouts (indent s) (snd L1) ds"
  have 1: "narrow_run s (stream_at True p d) (p + width d) L1"
    unfolding L1_def using Cons.prems by (intro Cons.prems(1)) simp_all
  have w: "unat (p + width d) = unat p + length (flat_text d)"
    using Cons.prems(4) by (intro unat_add_width) simp
  have 2: "narrow_run s1 (streams_at True (p + width d) ds)
             (p + width d + sum_list (map width ds)) L2"
    if "narrow_inv (p + width d) s1" "indent s1 = indent s" "hpos s1 = snd L1" for s1
  proof -
    have "narrow_run s1 (streams_at True (p + width d) ds)
             (p + width d + sum_list (map width ds)) (break_layouts (indent s1) (hpos s1) ds)"
      using Cons.prems that(1) w by (intro Cons.IH) simp_all
    then show ?thesis by (simp add: L2_def that)
  qed
  have "narrow_run s (stream_at True p d @ streams_at True (p + width d) ds)
          (p + width d + sum_list (map width ds)) (fst L1 @ fst L2, snd L2)"
    using 1 2 by (rule narrow_run_append)
  then show ?case
    by (simp add: L1_def L2_def add.assoc)
qed

lemma narrow_group:
  assumes inv: "narrow_inv p s" and proper: "conds_proper d"
    and len: "unat p + length (flat_text d) < 2 ^ 32" and dep: "Suc (depth d) < 2 ^ 32"
    and IH: "\<And>s. narrow_inv p s \<Longrightarrow>
               narrow_run s (stream_at True p d) (p + width d) (break_layout (indent s) (hpos s) d)"
  shows "narrow_run s
           (gbeg_element (Some (ucast (p + width d))) # stream_at True p d @ [gend_element h'])
           (p + width d) (break_layout (indent s) (hpos s) d)"
proof (cases "(ucast (ucast (p + width d) :: size_t) :: uint) \<le> rightEdge s")
  case False
  with inv show ?thesis
    by (rule narrow_group_break) (rule IH [OF inv])
next
  case True
  have "rightEdge s \<le> p"
    using inv by (simp add: narrow_inv_def)
  with True have "unat (p + width d) \<le> unat p"
    by (simp add: ucast_ucast_up word_le_nat_alt)
  with unat_add_width [OF len] have e: "flat_text d = []"
    by simp
  then have w: "width d = 0"
    by (simp add: width_flat_text)
  have nc: "list_all (\<lambda>e. \<not> is_cond e) (stream_at True p d)"
    and lay: "break_layout (indent s) (hpos s) d = ([], hpos s)"
    using empty_flat [OF proper e] by simp_all
  have run: "for_each output_visit (stream_at True p d) s1 = Some s1"
    if "fittingElements s1 = 1" for s1
  proof -
    have "for_each output_visit (stream_at True p d) s1 =
            Some (s1\<lparr>result := result s1 @ flat_text d, hpos := hpos s1 + width d\<rparr>)"
      using that dep by (intro flat_stream) simp_all
    then show ?thesis by (simp add: e w)
  qed
  have "narrow_run s
           (gbeg_element (Some (ucast (p + width d))) # stream_at True p d @ [gend_element h'])
           p ([], hpos s)"
    using inv True run nc by (rule narrow_group_fit)
  then show ?thesis by (simp add: lay w)
qed

lemma narrow_stream:
  assumes "narrow_inv p s" and "conds_proper d"
    and "unat p + length (flat_text d) < 2 ^ 32" and "depth d < 2 ^ 32"
  shows "narrow_run s (stream_at True p d) (p + width d) (break_layout (indent s) (hpos s) d)"
  using assms
proof (induction d arbitrary: p s)
  case (Text t)
  then show ?case by (simp add: narrow_text)
next
  case (Cond small cont tail)
  then show ?case
    unfolding stream_at.simps width.simps by (intro narrow_cond) simp_all
next
  case (Concat ds)
  have all: "\<forall>d\<in>set ds. depth d < 2 ^ 32"
    using Concat.prems(4) depth_child [of _ ds] by fastforce
  show ?case
    unfolding stream_at.simps break_layout.simps width_Concat
  proof (rule narrow_streams)
    show "narrow_inv p s" by (rule Concat.prems)
    show "list_all conds_proper ds" using Concat.prems(2) by simp
    show "unat p + length (concat (map flat_text ds)) < 2 ^ 32"
      using Concat.prems(3) by simp
    show "\<forall>d\<in>set ds. depth d < 2 ^ 32" by (rule all)
  qed (rule Concat.IH)
next
  case (Group d)
  show ?case
    unfolding stream_at.simps break_layout.simps width.simps if_True
  proof (rule narrow_group)
    show "narrow_inv p s" by (rule Group.prems)
    show "conds_proper d" using Group.prems(2) by simp
    show "unat p + length (flat_text d) < 2 ^ 32" using Group.prems(3) by simp
    show "Suc (depth d) < 2 ^ 32" using Group.prems(4) by simp
    show "narrow_run s (stream_at True p d) (p + width d) (break_layout (indent s) (hpos s) d)"
      if "narrow_inv p s" for s
      using that Group.prems by (intro Group.IH) simp_all
  qed
next
  case (Nest d)
  define h :: size_t where "h = ucast (p + width d)"
  define G where "G = gbeg_element (Some h) # stream_at True p d @ [gend_element (Some h)]"
  have eq: "stream_at True p (Nest d) = nbeg_element None # G @ [nend_element (Some h)]"
    by (simp add: G_def h_def)
  let ?s0 = "s\<lparr>indent := indent s @ [hpos s]\<rparr>"
  have inv0: "narrow_inv p ?s0"
    using Nest.prems(1) by (simp add: narrow_inv_def)
  have "narrow_run ?s0 G (p + width d) (break_layout (indent ?s0) (hpos ?s0) d)"
    unfolding G_def h_def
  proof (rule narrow_group)
    show "narrow_inv p ?s0" by (rule inv0)
    show "conds_proper d" using Nest.prems(2) by simp
    show "unat p + length (flat_text d) < 2 ^ 32" using Nest.prems(3) by simp
    show "Suc (depth d) < 2 ^ 32" using Nest.prems(4) by simp
    show "narrow_run s (stream_at True p d) (p + width d) (break_layout (indent s) (hpos s) d)"
      if "narrow_inv p s" for s
      using that Nest.prems by (intro Nest.IH) simp_all
  qed
  then have "narrow_run ?s0 G (p + width d) (break_layout (indent s) (hpos s) (Nest d))"
    by simp
  with Nest.prems(1) have "narrow_run s (nbeg_element None # G @ [nend_element (Some h)])
      (p + width d) (break_layout (indent s) (hpos s) (Nest d))"
    by (rule narrow_nest)
  then show ?case
    unfolding eq width.simps .
qed

lemma narrow_document:
  assumes "conds_proper d" and "length (flat_text d) < 2 ^ 32" and "depth d < 2 ^ 32"
  shows "narrow_run (new_output_visitor 0) (stream_at True 0 d) (width d) (break_layout [] 0 d)"
proof -
  have "narrow_inv 0 (new_output_visitor 0)"
    by (simp add: narrow_inv_def new_output_visitor_def)
  then have "narrow_run (new_output_visitor 0) (stream_at True 0 d) (0 + width d)
               (break_layout (indent (new_output_visitor 0)) (hpos (new_output_visitor 0)) d)"
    using assms by (intro narrow_stream) simp_all
  then show ?thesis
    by (simp add: new_output_visitor_def)
qed

text \<open>
  C4, amended. At width 0, in a document whose conditionals all have a \<open>small\<close> that is not
  empty and at least as long as their \<open>cont\<close>, with flat length and depth below \<open>2^32\<close>,
  every conditional takes its break branch, and the output is the layout in which each
  continuation line is indented to the column at which the innermost nest around the
  conditional was opened.
\<close>

theorem width_zero_breaks:
  assumes "conds_proper d" and "length (flat_text d) < 2 ^ 32" and "depth d < 2 ^ 32"
  shows "\<exists>cs. corrected_stream d = Some cs
           \<and> all_break (new_output_visitor 0) cs
           \<and> pretty_print 0 d = Some (fst (break_layout [] 0 d))"
  using narrow_document [OF assms]
  by (auto simp: narrow_run_def corrected_stream_eq pretty_print_render render_def
        new_output_visitor_def)

theorem width_zero_breaks_witness:
  "conds_proper (funcall ''f'' [Text ''a'', Text ''b''])
   \<and> length (flat_text (funcall ''f'' [Text ''a'', Text ''b''])) < 2 ^ 32
   \<and> depth (funcall ''f'' [Text ''a'', Text ''b'']) < 2 ^ 32
   \<and> (\<exists>cs. corrected_stream (funcall ''f'' [Text ''a'', Text ''b'']) = Some cs
          \<and> all_break (new_output_visitor 0) cs
          \<and> pretty_print 0 (funcall ''f'' [Text ''a'', Text ''b''])
              = Some (''f(a,'' @ [newline] @ replicate 2 CHR '' '' @ ''b)''))"
proof -
  have d: "funcall ''f'' [Text ''a'', Text ''b''] =
        Concat [Text ''f'', Concat [Text ''('', Nest (Concat [Text ''a'', Text '','', br, Text ''b'']), Text '')'']]"
    by (simp add: funcall_def arglist_def comma_separated_def make_concat_def make_nest_def
          make_text_def)
  have h: "conds_proper (funcall ''f'' [Text ''a'', Text ''b''])"
      "length (flat_text (funcall ''f'' [Text ''a'', Text ''b''])) < 2 ^ 32"
      "depth (funcall ''f'' [Text ''a'', Text ''b'']) < 2 ^ 32"
    by (simp_all add: d br_def)
  have l: "fst (break_layout [] 0 (funcall ''f'' [Text ''a'', Text ''b'']))
             = ''f(a,'' @ [newline] @ replicate 2 CHR '' '' @ ''b)''"
    by (simp add: d br_def)
  from width_zero_breaks [OF h] h show ?thesis
    by (simp only: l)
qed

text \<open>
  C4 as stated fails: a group of flat width 0 fits at width 0, and the conditional in it
  is printed flat.
\<close>

theorem width_zero_counterexample:
  "corrected_stream (Group (Cond [] ''x'' ''y'')) =
     Some [gbeg_element (Some 0), cond_element [] ''y'' ''x'' (Some 0), gend_element (Some 0)]
   \<and> \<not> all_break (new_output_visitor 0)
          [gbeg_element (Some 0), cond_element [] ''y'' ''x'' (Some 0), gend_element (Some 0)]
   \<and> pretty_print 0 (Group (Cond [] ''x'' ''y'')) = Some []"
  by code_simp

section \<open>Wider pages\<close>

lemma page_inv_advance:
  assumes "page_inv p s" and "unat (page_width s) + unat p + n < 2 ^ 32"
  shows "page_inv (p + of_nat n) (s\<lparr>result := r, hpos := hpos s + of_nat n\<rparr>)"
proof -
  have h: "unat (hpos s) \<le> unat p"
    using assms(1) by (simp add: page_inv_def word_le_nat_alt)
  have p': "unat (p + of_nat n) = unat p + n"
    using assms(2) by (intro unat_add_len) simp
  have h': "unat (hpos s + of_nat n) = unat (hpos s) + n"
    using assms(2) h by (intro unat_add_len) simp
  have "p \<le> p + of_nat n"
    using assms(2) by (intro le_add_len) simp
  then have "list_all (\<lambda>i. i \<le> p + of_nat n) (indent s)"
    using assms(1) by (auto simp: page_inv_def list_all_iff)
  moreover have "hpos s + of_nat n \<le> p + of_nat n"
    using h h' p' by (simp add: word_le_nat_alt)
  moreover have "unat (rightEdge s) + unat (hpos s + of_nat n) = unat (page_width s) + unat (p + of_nat n)"
    using assms(1) h' p' by (simp add: page_inv_def)
  ultimately show ?thesis
    by (simp add: page_inv_def)
qed

lemma page_inv_advance_width:
  assumes "page_inv p s" and "unat (page_width s) + unat p + length (flat_text d) < 2 ^ 32"
  shows "page_inv (p + width d) (s\<lparr>result := r, hpos := hpos s + width d\<rparr>)"
  unfolding width_flat_text using assms by (rule page_inv_advance)

lemma page_cond_break:
  assumes "page_inv p s" and "fittingElements s = 0" and "length cont \<le> length small"
    and "unat (page_width s) + unat p + length small < 2 ^ 32"
  shows "\<exists>s'. output_visit (cond_element small tail cont (Some (ucast (p + of_nat (length small))))) s
                = Some s'
           \<and> page_inv (p + of_nat (length small)) s' \<and> fittingElements s' = 0
           \<and> indent s' = indent s \<and> page_width s' = page_width s
           \<and> result s' = result s @ tail @ [newline]
                 @ replicate (unat (if indent s = [] then 0 else last (indent s))) CHR '' '' @ cont
           \<and> hpos s' = (if indent s = [] then 0 else last (indent s)) + of_nat (length cont)"
proof -
  define i where "i = (if indent s = [] then 0 else last (indent s))"
  define p' :: uint where "p' = p + of_nat (length small)"
  define h' where "h' = i + of_nat (length cont)"
  define W where "W = page_width s"
  have ind: "list_all (\<lambda>i. i \<le> p) (indent s)"
    using assms(1) by (simp add: page_inv_def)
  have "i \<le> p"
    unfolding i_def using ind by (rule top_indent_le)
  then have i: "unat i \<le> unat p"
    by (simp add: word_le_nat_alt)
  have p': "unat p' = unat p + length small"
    unfolding p'_def using assms(4) by (intro unat_add_len) simp
  have "unat i + length cont < 2 ^ 32"
    using i assms(3,4) by simp
  then have uh: "unat h' = unat i + length cont"
    unfolding h'_def by (rule unat_add_len)
  with i p' assms(3) have hp: "h' \<le> p'"
    by (simp add: word_le_nat_alt)
  have "unat W + unat p' < 2 ^ 32"
    using assms(4) p' by (simp add: W_def)
  then have wp: "unat (W + p') = unat W + unat p'"
    by (simp add: unat_word_ariths)
  have "unat h' \<le> unat (W + p')"
    using hp wp by (simp add: word_le_nat_alt)
  then have "h' \<le> W + p'"
    by (simp add: word_le_nat_alt)
  then have sub: "unat (W + p' - h') = unat (W + p') - unat h'"
    by (rule unat_sub)
  have eq: "W - h' + p' = W + p' - h'"
    by simp
  have "unat (W - h' + p') = unat W + unat p' - unat h'"
    by (simp only: eq sub wp)
  with wp \<open>unat h' \<le> unat (W + p')\<close>
  have re: "unat (W - h' + p') + unat h' = unat W + unat p'"
    by simp
  have "p \<le> p'"
    unfolding p'_def using assms(4) by (intro le_add_len) simp
  with ind have ind': "list_all (\<lambda>i. i \<le> p') (indent s)"
    by (auto simp: list_all_iff)
  have step: "output_visit (cond_element small tail cont (Some (ucast p'))) s =
      Some (s\<lparr>result := result s @ tail @ [newline] @ replicate (unat i) CHR '' '' @ cont,
               fittingElements := 0, hpos := h', rightEdge := W - h' + p'\<rparr>)"
    using assms(2) by (simp add: Let_def i_def h'_def W_def ucast_add_down ucast_ucast_up)
  show ?thesis
    unfolding p'_def [symmetric] i_def [symmetric] h'_def [symmetric]
    using hp re ind'
    by (simp add: step page_inv_def W_def del: output_visit.simps)
qed

lemma count_newlines_Cons:
  "count_newlines (c # s) = (if c = newline then 1 else 0) + count_newlines s"
  by (simp add: count_newlines_def)

lemma same_fitting: "fittingElements s = 0 \<Longrightarrow> s\<lparr>fittingElements := 0\<rparr> = s"
  by (cases s) simp

lemma unfit_group:
  assumes "fittingElements s = 0" and "\<not> (ucast h :: uint) \<le> rightEdge s"
    and "for_each output_visit es s = Some s'" and "fittingElements s' = 0"
  shows "for_each output_visit (gbeg_element (Some h) # es @ [gend_element h']) s = Some s'"
  using assms by (simp add: same_fitting for_each_append)

lemma plain_streams:
  assumes "\<And>d p s. d \<in> set ds \<Longrightarrow> \<not> has_cond d \<Longrightarrow> fittingElements s = 0 \<Longrightarrow>
              depth d < 2 ^ 32 \<Longrightarrow>
              for_each output_visit (stream_at True p d) s =
                Some (s\<lparr>result := result s @ flat_text d, hpos := hpos s + width d\<rparr>)"
    and "\<not> list_ex has_cond ds"
    and "fittingElements s = 0"
    and "\<forall>d\<in>set ds. depth d < 2 ^ 32"
  shows "for_each output_visit (streams_at True p ds) s =
           Some (s\<lparr>result := result s @ concat (map flat_text ds),
                    hpos := hpos s + sum_list (map width ds)\<rparr>)"
  using assms
proof (induction ds arbitrary: p s)
  case Nil
  then show ?case by simp
next
  case (Cons d ds)
  let ?s1 = "s\<lparr>result := result s @ flat_text d, hpos := hpos s + width d\<rparr>"
  have 1: "for_each output_visit (stream_at True p d) s = Some ?s1"
    using Cons.prems by simp
  have 2: "for_each output_visit (streams_at True (p + width d) ds) ?s1 =
             Some (?s1\<lparr>result := result ?s1 @ concat (map flat_text ds),
                    hpos := hpos ?s1 + sum_list (map width ds)\<rparr>)"
    using Cons.prems by (intro Cons.IH) simp_all
  show ?case
    by (simp add: for_each_append 1 2 add.assoc)
qed

lemma plain_group:
  assumes f: "fittingElements s = 0" and dep: "Suc (depth d) < 2 ^ 32"
    and IH: "for_each output_visit (stream_at True p d) s =
               Some (s\<lparr>result := result s @ flat_text d, hpos := hpos s + width d\<rparr>)"
  shows "for_each output_visit (gbeg_element (Some h) # stream_at True p d @ [gend_element h']) s =
           Some (s\<lparr>result := result s @ flat_text d, hpos := hpos s + width d\<rparr>)"
proof (cases "(ucast h :: uint) \<le> rightEdge s")
  case True
  with f show ?thesis
  proof (rule fit_group)
    fix s1 :: output_visitor
    assume "fittingElements s1 = 1"
    with dep show "for_each output_visit (stream_at True p d) s1 =
        Some (s1\<lparr>result := result s1 @ flat_text d, hpos := hpos s1 + width d\<rparr>)"
      by (intro flat_stream) simp_all
  qed
next
  case False
  with f show ?thesis
    by (rule unfit_group) (simp_all add: IH f)
qed

lemma plain_stream:
  assumes "\<not> has_cond d" and "fittingElements s = 0" and "depth d < 2 ^ 32"
  shows "for_each output_visit (stream_at True p d) s =
           Some (s\<lparr>result := result s @ flat_text d, hpos := hpos s + width d\<rparr>)"
  using assms
proof (induction d arbitrary: p s)
  case (Text t)
  then show ?case by simp
next
  case (Cond small cont tail)
  then show ?case by simp
next
  case (Concat ds)
  have all: "\<forall>d\<in>set ds. depth d < 2 ^ 32"
    using Concat.prems(3) depth_child [of _ ds] by fastforce
  show ?case
    unfolding stream_at.simps flat_text.simps width_Concat
  proof (rule plain_streams)
    show "\<not> list_ex has_cond ds" using Concat.prems(1) by simp
    show "fittingElements s = 0" by (rule Concat.prems)
    show "\<forall>d\<in>set ds. depth d < 2 ^ 32" by (rule all)
  qed (rule Concat.IH)
next
  case (Group d)
  show ?case
    unfolding stream_at.simps flat_text.simps width.simps if_True
    using Group.prems by (intro plain_group Group.IH) simp_all
next
  case (Nest d)
  define h :: size_t where "h = ucast (p + width d)"
  define G where "G = gbeg_element (Some h) # stream_at True p d @ [gend_element (Some h)]"
  have eq: "stream_at True p (Nest d) = nbeg_element None # G @ [nend_element (Some h)]"
    by (simp add: G_def h_def)
  let ?s0 = "s\<lparr>indent := indent s @ [hpos s]\<rparr>"
  have "for_each output_visit G ?s0 =
           Some (?s0\<lparr>result := result ?s0 @ flat_text d, hpos := hpos ?s0 + width d\<rparr>)"
    unfolding G_def
    using Nest.prems by (intro plain_group Nest.IH) simp_all
  then show ?case
    by (subst eq) (simp add: for_each_append)
qed

lemma page_run_append:
  assumes "page_run s xs p1 n1"
    and "\<And>s1. page_inv p1 s1 \<Longrightarrow> fittingElements s1 = 0 \<Longrightarrow> indent s1 = indent s \<Longrightarrow>
            page_width s1 = page_width s \<Longrightarrow> page_run s1 ys p2 n2"
  shows "page_run s (xs @ ys) p2 (n1 + n2)"
proof -
  from assms(1) obtain s1 where s1: "for_each output_visit xs s = Some s1" "page_inv p1 s1"
      "fittingElements s1 = 0" "indent s1 = indent s" "page_width s1 = page_width s"
      "count_newlines (result s) + n1 \<le> count_newlines (result s1)"
    unfolding page_run_def by blast
  from assms(2) [OF s1(2-5)] obtain s2 where s2: "for_each output_visit ys s1 = Some s2"
      "page_inv p2 s2" "fittingElements s2 = 0" "indent s2 = indent s1"
      "page_width s2 = page_width s1"
      "count_newlines (result s1) + n2 \<le> count_newlines (result s2)"
    unfolding page_run_def by blast
  show ?thesis
    unfolding page_run_def
    using s1 s2 by (simp add: for_each_append)
qed

lemma page_text:
  assumes "page_inv p s" and "fittingElements s = 0"
    and "unat (page_width s) + unat p + length t < 2 ^ 32"
  shows "page_run s [text_element t h] (p + of_nat (length t)) (count_newlines t)"
  unfolding page_run_def
  using page_inv_advance [OF assms(1,3), of "result s @ t"] assms(2)
  by simp

lemma page_cond:
  assumes "page_inv p s" and "fittingElements s = 0" and "length cont \<le> length small"
    and "count_newlines small \<le> count_newlines tail + 1 + count_newlines cont"
    and "unat (page_width s) + unat p + length small < 2 ^ 32"
  shows "page_run s [cond_element small tail cont (Some (ucast (p + of_nat (length small))))]
           (p + of_nat (length small)) (count_newlines small)"
proof -
  from page_cond_break [OF assms(1,2,3,5), of tail] obtain s' where
    s': "output_visit (cond_element small tail cont (Some (ucast (p + of_nat (length small))))) s
                = Some s'"
      "page_inv (p + of_nat (length small)) s'" "fittingElements s' = 0"
      "indent s' = indent s" "page_width s' = page_width s"
      "result s' = result s @ tail @ [newline]
                 @ replicate (unat (if indent s = [] then 0 else last (indent s))) CHR '' '' @ cont"
    by blast
  from s'(6) assms(4) have "count_newlines (result s) + count_newlines small \<le> count_newlines (result s')"
    by (simp add: count_newlines_Cons)
  with s'(1-5) show ?thesis
    unfolding page_run_def by (simp del: output_visit.simps)
qed

lemma page_group_break:
  assumes "fittingElements s = 0" and "\<not> (ucast h :: uint) \<le> rightEdge s"
    and "page_run s es p' n"
  shows "page_run s (gbeg_element (Some h) # es @ [gend_element h']) p' n"
proof -
  from assms(3) obtain s1 where s1: "for_each output_visit es s = Some s1" "page_inv p' s1"
      "fittingElements s1 = 0" "indent s1 = indent s" "page_width s1 = page_width s"
      "count_newlines (result s) + n \<le> count_newlines (result s1)"
    unfolding page_run_def by blast
  have "for_each output_visit (gbeg_element (Some h) # es @ [gend_element h']) s = Some s1"
    using assms(1,2) s1(1,3) by (rule unfit_group)
  with s1 show ?thesis
    unfolding page_run_def by simp
qed

lemma page_group_fit:
  assumes "page_inv p s" and "fittingElements s = 0" and "(ucast h :: uint) \<le> rightEdge s"
    and "unat (page_width s) + unat p + length (flat_text d) < 2 ^ 32"
    and "Suc (depth d) < 2 ^ 32"
  shows "page_run s (gbeg_element (Some h) # stream_at True p d @ [gend_element h'])
           (p + width d) (count_newlines (flat_text d))"
proof -
  have "for_each output_visit (gbeg_element (Some h) # stream_at True p d @ [gend_element h']) s =
           Some (s\<lparr>result := result s @ flat_text d, hpos := hpos s + width d\<rparr>)"
    using assms(2,3)
  proof (rule fit_group)
    fix s1 :: output_visitor
    assume "fittingElements s1 = 1"
    with assms(5) show "for_each output_visit (stream_at True p d) s1 =
        Some (s1\<lparr>result := result s1 @ flat_text d, hpos := hpos s1 + width d\<rparr>)"
      by (intro flat_stream) simp_all
  qed
  moreover have "page_inv (p + width d) (s\<lparr>result := result s @ flat_text d, hpos := hpos s + width d\<rparr>)"
    using assms(1,4) by (rule page_inv_advance_width)
  ultimately show ?thesis
    unfolding page_run_def using assms(2) by simp
qed

lemma page_nest:
  assumes "page_inv p s" and "page_run (s\<lparr>indent := indent s @ [hpos s]\<rparr>) G p' n"
  shows "page_run s (nbeg_element h # G @ [nend_element h']) p' n"
proof -
  let ?s0 = "s\<lparr>indent := indent s @ [hpos s]\<rparr>"
  from assms(2) obtain s1 where s1: "for_each output_visit G ?s0 = Some s1" "page_inv p' s1"
      "fittingElements s1 = 0" "indent s1 = indent s @ [hpos s]" "page_width s1 = page_width s"
      "count_newlines (result s) + n \<le> count_newlines (result s1)"
    unfolding page_run_def by auto
  have "page_inv p' (s1\<lparr>indent := indent s\<rparr>)"
    using s1(2,4) by (simp add: page_inv_def)
  then show ?thesis
    unfolding page_run_def
    using s1 by (simp add: for_each_append)
qed

lemma page_inv_push: "page_inv p s \<Longrightarrow> page_inv p (s\<lparr>indent := indent s @ [hpos s]\<rparr>)"
  by (simp add: page_inv_def)

lemma page_streams:
  assumes "\<And>d p s. d \<in> set ds \<Longrightarrow> page_inv p s \<Longrightarrow> fittingElements s = 0 \<Longrightarrow>
              conts_short d \<Longrightarrow> smalls_light d \<Longrightarrow>
              unat (page_width s) + unat p + length (flat_text d) < 2 ^ 32 \<Longrightarrow>
              depth d < 2 ^ 32 \<Longrightarrow>
              page_run s (stream_at True p d) (p + width d) (count_newlines (flat_text d))"
    and "page_inv p s" and "fittingElements s = 0"
    and "list_all conts_short ds" and "list_all smalls_light ds"
    and "unat (page_width s) + unat p + length (concat (map flat_text ds)) < 2 ^ 32"
    and "\<forall>d\<in>set ds. depth d < 2 ^ 32"
  shows "page_run s (streams_at True p ds) (p + sum_list (map width ds))
           (count_newlines (concat (map flat_text ds)))"
  using assms
proof (induction ds arbitrary: p s)
  case Nil
  then show ?case by (simp add: page_run_def)
next
  case (Cons d ds)
  have 1: "page_run s (stream_at True p d) (p + width d) (count_newlines (flat_text d))"
    using Cons.prems by (intro Cons.prems(1)) simp_all
  have w: "unat (p + width d) = unat p + length (flat_text d)"
    using Cons.prems(6) by (intro unat_add_width) simp
  have 2: "page_run s1 (streams_at True (p + width d) ds)
             (p + width d + sum_list (map width ds)) (count_newlines (concat (map flat_text ds)))"
    if "page_inv (p + width d) s1" "fittingElements s1 = 0" "indent s1 = indent s"
       "page_width s1 = page_width s" for s1
    using Cons.prems that w by (intro Cons.IH) simp_all
  have "page_run s (stream_at True p d @ streams_at True (p + width d) ds)
          (p + width d + sum_list (map width ds))
          (count_newlines (flat_text d) + count_newlines (concat (map flat_text ds)))"
    using 1 2 by (rule page_run_append)
  then show ?case
    by (simp add: add.assoc)
qed

lemma page_group:
  assumes inv: "page_inv p s" and f: "fittingElements s = 0"
    and len: "unat (page_width s) + unat p + length (flat_text d) < 2 ^ 32"
    and dep: "Suc (depth d) < 2 ^ 32"
    and IH: "page_run s (stream_at True p d) (p + width d) (count_newlines (flat_text d))"
  shows "page_run s (gbeg_element (Some h) # stream_at True p d @ [gend_element h'])
           (p + width d) (count_newlines (flat_text d))"
proof (cases "(ucast h :: uint) \<le> rightEdge s")
  case True
  with inv f show ?thesis
    using len dep by (rule page_group_fit)
next
  case False
  with f show ?thesis
    using IH by (rule page_group_break)
qed

lemma page_stream:
  assumes "page_inv p s" and "fittingElements s = 0" and "conts_short d" and "smalls_light d"
    and "unat (page_width s) + unat p + length (flat_text d) < 2 ^ 32" and "depth d < 2 ^ 32"
  shows "page_run s (stream_at True p d) (p + width d) (count_newlines (flat_text d))"
  using assms
proof (induction d arbitrary: p s)
  case (Text t)
  then show ?case by (simp add: page_text)
next
  case (Cond small cont tail)
  then show ?case
    unfolding stream_at.simps width.simps flat_text.simps by (intro page_cond) simp_all
next
  case (Concat ds)
  have all: "\<forall>d\<in>set ds. depth d < 2 ^ 32"
    using Concat.prems(6) depth_child [of _ ds] by fastforce
  show ?case
    unfolding stream_at.simps flat_text.simps width_Concat
  proof (rule page_streams)
    show "page_inv p s" by (rule Concat.prems)
    show "fittingElements s = 0" by (rule Concat.prems)
    show "list_all conts_short ds" using Concat.prems(3) by simp
    show "list_all smalls_light ds" using Concat.prems(4) by simp
    show "unat (page_width s) + unat p + length (concat (map flat_text ds)) < 2 ^ 32"
      using Concat.prems(5) by simp
    show "\<forall>d\<in>set ds. depth d < 2 ^ 32" by (rule all)
  qed (rule Concat.IH)
next
  case (Group d)
  show ?case
    unfolding stream_at.simps flat_text.simps width.simps if_True
    using Group.prems by (intro page_group Group.IH) simp_all
next
  case (Nest d)
  define h :: size_t where "h = ucast (p + width d)"
  define G where "G = gbeg_element (Some h) # stream_at True p d @ [gend_element (Some h)]"
  have eq: "stream_at True p (Nest d) = nbeg_element None # G @ [nend_element (Some h)]"
    by (simp add: G_def h_def)
  let ?s0 = "s\<lparr>indent := indent s @ [hpos s]\<rparr>"
  have inv0: "page_inv p ?s0"
    using Nest.prems(1) by (rule page_inv_push)
  have "page_run ?s0 G (p + width d) (count_newlines (flat_text d))"
    unfolding G_def
    using Nest.prems inv0 by (intro page_group Nest.IH) simp_all
  with Nest.prems(1) have "page_run s (nbeg_element None # G @ [nend_element (Some h)])
      (p + width d) (count_newlines (flat_text d))"
    by (rule page_nest)
  then show ?case
    unfolding eq width.simps flat_text.simps .
qed

lemma rel_inv_weaken: "rel_inv l p s1 s2 \<Longrightarrow> rel_inv True p s1 s2"
  by (simp add: rel_inv_def)

lemma rel_run_weaken: "rel_run s1 s2 es l p' \<Longrightarrow> rel_run s1 s2 es True p'"
  unfolding rel_run_def using rel_inv_weaken by blast

lemma rel_run_append:
  assumes "rel_run s1 s2 xs l1 p1"
    and "\<And>t1 t2. rel_inv l1 p1 t1 t2 \<Longrightarrow> indent t1 = indent s1 \<Longrightarrow>
            page_width t1 = page_width s1 \<Longrightarrow> page_width t2 = page_width s2 \<Longrightarrow>
            rel_run t1 t2 ys l2 p2"
  shows "rel_run s1 s2 (xs @ ys) l2 p2"
proof -
  from assms(1) obtain t1 t2 where t: "for_each output_visit xs s1 = Some t1"
      "for_each output_visit xs s2 = Some t2" "rel_inv l1 p1 t1 t2" "indent t1 = indent s1"
      "page_width t1 = page_width s1" "page_width t2 = page_width s2"
    unfolding rel_run_def by blast
  from assms(2) [OF t(3-6)] obtain u1 u2 where u: "for_each output_visit ys t1 = Some u1"
      "for_each output_visit ys t2 = Some u2" "rel_inv l2 p2 u1 u2" "indent u1 = indent t1"
      "page_width u1 = page_width t1" "page_width u2 = page_width t2"
    unfolding rel_run_def by blast
  show ?thesis
    unfolding rel_run_def
    using t u by (simp add: for_each_append)
qed

lemma rel_overflow:
  assumes "rel_inv l p s1 s2" and "unat (page_width s1) + unat p + n < 2 ^ 32"
  shows "unat (page_width s2) + unat p + n < 2 ^ 32"
proof -
  have "unat (page_width s2) \<le> unat (page_width s1)"
    using assms(1) by (simp add: rel_inv_def word_le_nat_alt)
  with assms(2) show ?thesis by simp
qed

lemma rel_same:
  assumes rel: "rel_inv l p s1 s2" and len: "unat (page_width s1) + unat p + n < 2 ^ 32"
    and 1: "for_each output_visit es s1 = Some (s1\<lparr>result := result s1 @ txt, hpos := hpos s1 + of_nat n\<rparr>)"
    and 2: "for_each output_visit es s2 = Some (s2\<lparr>result := result s2 @ txt, hpos := hpos s2 + of_nat n\<rparr>)"
  shows "rel_run s1 s2 es l (p + of_nat n)"
proof -
  have i1: "page_inv (p + of_nat n) (s1\<lparr>result := result s1 @ txt, hpos := hpos s1 + of_nat n\<rparr>)"
    using rel len by (intro page_inv_advance) (simp_all add: rel_inv_def)
  have i2: "page_inv (p + of_nat n) (s2\<lparr>result := result s2 @ txt, hpos := hpos s2 + of_nat n\<rparr>)"
    using rel rel_overflow [OF rel len] by (intro page_inv_advance) (simp_all add: rel_inv_def)
  show ?thesis
    unfolding rel_run_def
    using rel i1 i2 by (simp add: 1 2 rel_inv_def)
qed

lemma rel_same_width:
  assumes "rel_inv l p s1 s2" and "unat (page_width s1) + unat p + length (flat_text d) < 2 ^ 32"
    and "for_each output_visit es s1 = Some (s1\<lparr>result := result s1 @ txt, hpos := hpos s1 + width d\<rparr>)"
    and "for_each output_visit es s2 = Some (s2\<lparr>result := result s2 @ txt, hpos := hpos s2 + width d\<rparr>)"
  shows "rel_run s1 s2 es l (p + width d)"
  using assms unfolding width_flat_text by (rule rel_same)

lemma rel_text:
  assumes "rel_inv l p s1 s2" and "unat (page_width s1) + unat p + length t < 2 ^ 32"
  shows "rel_run s1 s2 [text_element t h] l (p + of_nat (length t))"
  using assms by (rule rel_same) simp_all

lemma rel_plain:
  assumes "rel_inv l p s1 s2" and "\<not> has_cond d"
    and "unat (page_width s1) + unat p + length (flat_text d) < 2 ^ 32" and "depth d < 2 ^ 32"
  shows "rel_run s1 s2 (stream_at True p d) l (p + width d)"
  using assms(1,3)
proof (rule rel_same_width)
  show "for_each output_visit (stream_at True p d) s1 =
          Some (s1\<lparr>result := result s1 @ flat_text d, hpos := hpos s1 + width d\<rparr>)"
    using assms by (intro plain_stream) (simp_all add: rel_inv_def)
  show "for_each output_visit (stream_at True p d) s2 =
          Some (s2\<lparr>result := result s2 @ flat_text d, hpos := hpos s2 + width d\<rparr>)"
    using assms by (intro plain_stream) (simp_all add: rel_inv_def)
qed

lemma rel_cond:
  assumes rel: "rel_inv l p s1 s2" and short: "length cont \<le> length small"
    and len: "unat (page_width s1) + unat p + length small < 2 ^ 32"
  shows "rel_run s1 s2 [cond_element small tail cont (Some (ucast (p + of_nat (length small))))]
           False (p + of_nat (length small))"
proof -
  let ?e = "cond_element small tail cont (Some (ucast (p + of_nat (length small))))"
  let ?x = "tail @ [newline]
              @ replicate (unat (if indent s1 = [] then 0 else last (indent s1))) CHR '' '' @ cont"
  have r: "page_inv p s1" "page_inv p s2" "fittingElements s1 = 0" "fittingElements s2 = 0"
      "indent s1 = indent s2" "page_width s2 \<le> page_width s1"
      "count_newlines (result s1) \<le> count_newlines (result s2)"
    using rel by (simp_all add: rel_inv_def)
  from page_cond_break [OF r(1,3) short len, of tail] obtain t1 where
    t1: "output_visit ?e s1 = Some t1" "page_inv (p + of_nat (length small)) t1"
      "fittingElements t1 = 0" "indent t1 = indent s1" "page_width t1 = page_width s1"
      "result t1 = result s1 @ ?x"
      "hpos t1 = (if indent s1 = [] then 0 else last (indent s1)) + of_nat (length cont)"
    by blast
  from page_cond_break [OF r(2,4) short rel_overflow [OF rel len], of tail] obtain t2 where
    t2: "output_visit ?e s2 = Some t2" "page_inv (p + of_nat (length small)) t2"
      "fittingElements t2 = 0" "indent t2 = indent s2" "page_width t2 = page_width s2"
      "result t2 = result s2 @ ?x"
      "hpos t2 = (if indent s1 = [] then 0 else last (indent s1)) + of_nat (length cont)"
    unfolding r(5) by blast
  have "count_newlines (result t1) \<le> count_newlines (result t2)"
    unfolding t1(6) t2(6) using r(7) by (simp only: count_newlines_append add_le_cancel_right)
  with t1 t2 r(5,6) show ?thesis
    unfolding rel_run_def rel_inv_def by (simp del: output_visit.simps)
qed

lemma rel_fits:
  assumes rel: "rel_inv False p s1 s2" and fit: "q \<le> rightEdge s2"
  shows "q \<le> rightEdge s1"
proof -
  have e: "unat (rightEdge s1) + unat (hpos s1) = unat (page_width s1) + unat p"
      "unat (rightEdge s2) + unat (hpos s2) = unat (page_width s2) + unat p"
      "hpos s1 = hpos s2"
    using rel by (auto simp: rel_inv_def page_inv_def)
  have "unat (page_width s2) \<le> unat (page_width s1)"
    using rel by (simp add: rel_inv_def word_le_nat_alt)
  with e have "unat (rightEdge s2) \<le> unat (rightEdge s1)"
    by simp
  with fit show ?thesis
    by (simp add: word_le_nat_alt)
qed

lemma rel_group:
  assumes rel: "rel_inv False p s1 s2"
    and short: "conts_short d" and light: "smalls_light d"
    and len: "unat (page_width s1) + unat p + length (flat_text d) < 2 ^ 32"
    and dep: "Suc (depth d) < 2 ^ 32"
    and IH: "rel_run s1 s2 (stream_at True p d) l' (p + width d)"
  shows "rel_run s1 s2 (gbeg_element (Some h) # stream_at True p d @ [gend_element h'])
           True (p + width d)"
proof -
  let ?G = "gbeg_element (Some h) # stream_at True p d @ [gend_element h']"
  have r: "page_inv p s1" "page_inv p s2" "fittingElements s1 = 0" "fittingElements s2 = 0"
      "indent s1 = indent s2" "page_width s2 \<le> page_width s1"
      "count_newlines (result s1) \<le> count_newlines (result s2)"
    using rel by (simp_all add: rel_inv_def)
  have flat: "for_each output_visit ?G s =
           Some (s\<lparr>result := result s @ flat_text d, hpos := hpos s + width d\<rparr>)"
    if "fittingElements s = 0" "(ucast h :: uint) \<le> rightEdge s" for s
    using that
  proof (rule fit_group)
    fix s1 :: output_visitor
    assume "fittingElements s1 = 1"
    with dep show "for_each output_visit (stream_at True p d) s1 =
        Some (s1\<lparr>result := result s1 @ flat_text d, hpos := hpos s1 + width d\<rparr>)"
      by (intro flat_stream) simp_all
  qed
  show ?thesis
  proof (cases "(ucast h :: uint) \<le> rightEdge s1")
    case fit1: True
    show ?thesis
    proof (cases "(ucast h :: uint) \<le> rightEdge s2")
      case True
      have "rel_run s1 s2 ?G False (p + width d)"
        using rel len flat [OF r(3) fit1] flat [OF r(4) True] by (rule rel_same_width)
      then show ?thesis by (rule rel_run_weaken)
    next
      case False
      have "page_run s2 (stream_at True p d) (p + width d) (count_newlines (flat_text d))"
        using r(2,4) short light rel_overflow [OF rel len] dep by (intro page_stream) simp_all
      with r(4) False
      have "page_run s2 ?G (p + width d) (count_newlines (flat_text d))"
        by (rule page_group_break)
      then obtain t2 where t2: "for_each output_visit ?G s2 = Some t2"
          "page_inv (p + width d) t2" "fittingElements t2 = 0" "indent t2 = indent s2"
          "page_width t2 = page_width s2"
          "count_newlines (result s2) + count_newlines (flat_text d) \<le> count_newlines (result t2)"
        unfolding page_run_def by blast
      let ?t1 = "s1\<lparr>result := result s1 @ flat_text d, hpos := hpos s1 + width d\<rparr>"
      have t1: "for_each output_visit ?G s1 = Some ?t1"
        using r(3) fit1 by (rule flat)
      have i1: "page_inv (p + width d) ?t1"
        using r(1) len by (rule page_inv_advance_width)
      have "count_newlines (result ?t1) \<le> count_newlines (result t2)"
        using r(7) t2(6) by simp
      with t1 t2 i1 r show ?thesis
        unfolding rel_run_def rel_inv_def by simp
    qed
  next
    case nofit1: False
    then have nofit2: "\<not> (ucast h :: uint) \<le> rightEdge s2"
      using rel_fits [OF rel] by blast
    from IH obtain t1 t2 where t: "for_each output_visit (stream_at True p d) s1 = Some t1"
        "for_each output_visit (stream_at True p d) s2 = Some t2"
        "rel_inv l' (p + width d) t1 t2" "indent t1 = indent s1"
        "page_width t1 = page_width s1" "page_width t2 = page_width s2"
      unfolding rel_run_def by blast
    have f: "fittingElements t1 = 0" "fittingElements t2 = 0"
      using t(3) by (simp_all add: rel_inv_def)
    have "for_each output_visit ?G s1 = Some t1"
      using r(3) nofit1 t(1) f(1) by (rule unfit_group)
    moreover have "for_each output_visit ?G s2 = Some t2"
      using r(4) nofit2 t(2) f(2) by (rule unfit_group)
    ultimately have "rel_run s1 s2 ?G l' (p + width d)"
      unfolding rel_run_def using t(3-6) by blast
    then show ?thesis by (rule rel_run_weaken)
  qed
qed

lemma rel_inv_push:
  assumes "rel_inv False p s1 s2"
  shows "rel_inv False p (s1\<lparr>indent := indent s1 @ [hpos s1]\<rparr>) (s2\<lparr>indent := indent s2 @ [hpos s2]\<rparr>)"
  using assms by (auto simp: rel_inv_def page_inv_def)

lemma rel_nest:
  assumes "rel_run (s1\<lparr>indent := indent s1 @ [hpos s1]\<rparr>) (s2\<lparr>indent := indent s2 @ [hpos s2]\<rparr>)
             G l' p'"
  shows "rel_run s1 s2 (nbeg_element h # G @ [nend_element h']) l' p'"
proof -
  let ?a = "s1\<lparr>indent := indent s1 @ [hpos s1]\<rparr>"
  let ?b = "s2\<lparr>indent := indent s2 @ [hpos s2]\<rparr>"
  from assms obtain t1 t2 where t: "for_each output_visit G ?a = Some t1"
      "for_each output_visit G ?b = Some t2" "rel_inv l' p' t1 t2"
      "indent t1 = indent s1 @ [hpos s1]"
      "page_width t1 = page_width s1" "page_width t2 = page_width s2"
    unfolding rel_run_def by auto
  have i2: "indent t2 = indent s1 @ [hpos s1]"
    using t(3,4) by (simp add: rel_inv_def)
  have "rel_inv l' p' (t1\<lparr>indent := indent s1\<rparr>) (t2\<lparr>indent := indent s1\<rparr>)"
    using t(3,4) i2 by (simp add: rel_inv_def page_inv_def)
  then show ?thesis
    unfolding rel_run_def
    using t i2 by (simp add: for_each_append)
qed

lemma rel_streams:
  assumes "\<And>d loose loose' p s1 s2. d \<in> set ds \<Longrightarrow> rel_inv loose p s1 s2 \<Longrightarrow>
              groups_apart loose d = Some loose' \<Longrightarrow> conts_short d \<Longrightarrow> smalls_light d \<Longrightarrow>
              unat (page_width s1) + unat p + length (flat_text d) < 2 ^ 32 \<Longrightarrow>
              depth d < 2 ^ 32 \<Longrightarrow>
              rel_run s1 s2 (stream_at True p d) loose' (p + width d)"
    and "rel_inv loose p s1 s2" and "groups_apart_list loose ds = Some loose'"
    and "list_all conts_short ds" and "list_all smalls_light ds"
    and "unat (page_width s1) + unat p + length (concat (map flat_text ds)) < 2 ^ 32"
    and "\<forall>d\<in>set ds. depth d < 2 ^ 32"
  shows "rel_run s1 s2 (streams_at True p ds) loose' (p + sum_list (map width ds))"
  using assms
proof (induction ds arbitrary: loose p s1 s2)
  case Nil
  then show ?case by (simp add: rel_run_def)
next
  case (Cons d ds)
  from Cons.prems(3) obtain l where l: "groups_apart loose d = Some l"
      "groups_apart_list l ds = Some loose'"
    by (auto split: option.splits)
  have 1: "rel_run s1 s2 (stream_at True p d) l (p + width d)"
    using Cons.prems l(1) by (intro Cons.prems(1)) simp_all
  have w: "unat (p + width d) = unat p + length (flat_text d)"
    using Cons.prems(6) by (intro unat_add_width) simp
  have 2: "rel_run t1 t2 (streams_at True (p + width d) ds) loose'
             (p + width d + sum_list (map width ds))"
    if "rel_inv l (p + width d) t1 t2" "indent t1 = indent s1"
       "page_width t1 = page_width s1" "page_width t2 = page_width s2" for t1 t2
    using Cons.prems that w l(2) by (intro Cons.IH) simp_all
  have "rel_run s1 s2 (stream_at True p d @ streams_at True (p + width d) ds) loose'
          (p + width d + sum_list (map width ds))"
    using 1 2 by (rule rel_run_append)
  then show ?case
    by (simp add: add.assoc)
qed

lemma rel_stream:
  assumes "rel_inv loose p s1 s2" and "groups_apart loose d = Some loose'"
    and "conts_short d" and "smalls_light d"
    and "unat (page_width s1) + unat p + length (flat_text d) < 2 ^ 32" and "depth d < 2 ^ 32"
  shows "rel_run s1 s2 (stream_at True p d) loose' (p + width d)"
  using assms
proof (induction d arbitrary: loose loose' p s1 s2)
  case (Text t)
  then show ?case by (simp add: rel_text)
next
  case (Cond small cont tail)
  then have l: "loose' = False" by simp
  from Cond.prems show ?case
    unfolding stream_at.simps width.simps l by (intro rel_cond) simp_all
next
  case (Concat ds)
  have all: "\<forall>d\<in>set ds. depth d < 2 ^ 32"
    using Concat.prems(6) depth_child [of _ ds] by fastforce
  show ?case
    unfolding stream_at.simps width_Concat
  proof (rule rel_streams)
    show "rel_inv loose p s1 s2" by (rule Concat.prems)
    show "groups_apart_list loose ds = Some loose'" using Concat.prems(2) by simp
    show "list_all conts_short ds" using Concat.prems(3) by simp
    show "list_all smalls_light ds" using Concat.prems(4) by simp
    show "unat (page_width s1) + unat p + length (concat (map flat_text ds)) < 2 ^ 32"
      using Concat.prems(5) by simp
    show "\<forall>d\<in>set ds. depth d < 2 ^ 32" by (rule all)
  qed (rule Concat.IH)
next
  case (Group d)
  show ?case
  proof (cases "has_cond d")
    case False
    with Group.prems(2) have "loose' = loose" by simp
    moreover have "rel_run s1 s2 (stream_at True p (Group d)) loose (p + width (Group d))"
      using Group.prems False by (intro rel_plain) simp_all
    ultimately show ?thesis by simp
  next
    case True
    with Group.prems(2) obtain l where l: "loose = False" "groups_apart False d = Some l"
        "loose' = True"
      by (auto split: if_splits option.splits)
    have rel: "rel_inv False p s1 s2"
      using Group.prems(1) l(1) by simp
    have "rel_run s1 s2 (stream_at True p d) l (p + width d)"
      using rel l(2) Group.prems by (intro Group.IH) simp_all
    with rel Group.prems show ?thesis
      unfolding stream_at.simps width.simps if_True l(3)
      by (intro rel_group) simp_all
  qed
next
  case (Nest d)
  show ?case
  proof (cases "has_cond d")
    case False
    with Nest.prems(2) have "loose' = loose" by simp
    moreover have "rel_run s1 s2 (stream_at True p (Nest d)) loose (p + width (Nest d))"
      using Nest.prems False by (intro rel_plain) simp_all
    ultimately show ?thesis by simp
  next
    case True
    with Nest.prems(2) obtain l where l: "loose = False" "groups_apart False d = Some l"
        "loose' = True"
      by (auto split: if_splits option.splits)
    define h :: size_t where "h = ucast (p + width d)"
    define G where "G = gbeg_element (Some h) # stream_at True p d @ [gend_element (Some h)]"
    have eq: "stream_at True p (Nest d) = nbeg_element None # G @ [nend_element (Some h)]"
      by (simp add: G_def h_def)
    let ?a = "s1\<lparr>indent := indent s1 @ [hpos s1]\<rparr>"
    let ?b = "s2\<lparr>indent := indent s2 @ [hpos s2]\<rparr>"
    have rel: "rel_inv False p ?a ?b"
      using Nest.prems(1) l(1) by (intro rel_inv_push) simp
    have "rel_run ?a ?b (stream_at True p d) l (p + width d)"
      using rel l(2) Nest.prems by (intro Nest.IH) simp_all
    with rel Nest.prems have "rel_run ?a ?b G True (p + width d)"
      unfolding G_def by (intro rel_group) simp_all
    then have "rel_run s1 s2 (nbeg_element None # G @ [nend_element (Some h)]) True (p + width d)"
      by (rule rel_nest)
    then show ?thesis
      unfolding eq width.simps l(3) .
  qed
qed

lemma monotone_render:
  assumes "w2 \<le> w1" and "groups_apart False d = Some l" and "conts_short d" and "smalls_light d"
    and "unat w1 + length (flat_text d) < 2 ^ 32" and "depth d < 2 ^ 32"
  shows "\<exists>r1 r2. pretty_print w1 d = Some r1 \<and> pretty_print w2 d = Some r2
            \<and> count_newlines r1 \<le> count_newlines r2"
proof -
  have "rel_inv False 0 (new_output_visitor w1) (new_output_visitor w2)"
    using assms(1) by (simp add: rel_inv_def page_inv_def new_output_visitor_def)
  then have "rel_run (new_output_visitor w1) (new_output_visitor w2) (stream_at True 0 d) l
               (0 + width d)"
    using assms(2-6) by (intro rel_stream) (simp_all add: new_output_visitor_def)
  then show ?thesis
    unfolding rel_run_def rel_inv_def pretty_print_render render_def by auto
qed

text \<open>
  C6, amended. Let \<open>d\<close> be a document in which no group or nest holding a conditional
  begins after another one has ended without a conditional outside both in between
  (\<open>groups_apart\<close>), no \<open>cont\<close> is longer than its \<open>small\<close>, and no \<open>small\<close> has more newlines
  than its broken form; let the wider width plus the flat length, and the depth, be below
  \<open>2^32\<close>. Then for all widths \<open>w2 \<le> w1\<close>, \<open>pretty_print w1 d\<close> has at most as many
  newlines as \<open>pretty_print w2 d\<close>.
\<close>

theorem newlines_monotone:
  assumes "w2 \<le> w1" and "groups_apart False d \<noteq> None" and "conts_short d" and "smalls_light d"
    and "unat w1 + length (flat_text d) < 2 ^ 32" and "depth d < 2 ^ 32"
  shows "\<exists>r1 r2. pretty_print w1 d = Some r1 \<and> pretty_print w2 d = Some r2
            \<and> count_newlines r1 \<le> count_newlines r2"
proof -
  from assms(2) obtain l where "groups_apart False d = Some l"
    by blast
  with assms(1) show ?thesis
    using assms(3-6) by (rule monotone_render)
qed

theorem newlines_monotone_witness:
  "(3 :: uint) \<le> 5
   \<and> groups_apart False (funcall ''f'' [Text ''a'', Text ''b'']) \<noteq> None
   \<and> conts_short (funcall ''f'' [Text ''a'', Text ''b''])
   \<and> smalls_light (funcall ''f'' [Text ''a'', Text ''b''])
   \<and> unat (5 :: uint) + length (flat_text (funcall ''f'' [Text ''a'', Text ''b''])) < 2 ^ 32
   \<and> depth (funcall ''f'' [Text ''a'', Text ''b'']) < 2 ^ 32
   \<and> (\<exists>r1 r2. pretty_print 5 (funcall ''f'' [Text ''a'', Text ''b'']) = Some r1
          \<and> pretty_print 3 (funcall ''f'' [Text ''a'', Text ''b'']) = Some r2
          \<and> count_newlines r1 \<le> count_newlines r2)"
proof -
  have d: "funcall ''f'' [Text ''a'', Text ''b''] =
        Concat [Text ''f'', Concat [Text ''('', Nest (Concat [Text ''a'', Text '','', br, Text ''b'']), Text '')'']]"
    by (simp add: funcall_def arglist_def comma_separated_def make_concat_def make_nest_def
          make_text_def)
  have h: "(3 :: uint) \<le> 5"
      "groups_apart False (funcall ''f'' [Text ''a'', Text ''b'']) \<noteq> None"
      "conts_short (funcall ''f'' [Text ''a'', Text ''b''])"
      "smalls_light (funcall ''f'' [Text ''a'', Text ''b''])"
      "unat (5 :: uint) + length (flat_text (funcall ''f'' [Text ''a'', Text ''b''])) < 2 ^ 32"
      "depth (funcall ''f'' [Text ''a'', Text ''b'']) < 2 ^ 32"
    by (simp_all add: d br_def count_newlines_def newline_def)
  from newlines_monotone [OF h] h show ?thesis
    by (intro conjI)
qed

text \<open>
  C6 as stated fails: at width 6 the first group breaks and the second then fits, one
  newline; at width 7 the first group fits and the second does not, two newlines.
\<close>

theorem newlines_monotone_counterexample:
  "(6::uint) \<le> 7
   \<and> pretty_print 6 (Concat [Group (Concat [Text ''aaaaaa'', br]),
                            Group (Concat [Text ''b'', br, Text ''b'', br, Text ''b''])])
       = Some (''aaaaaa'' @ [newline] @ ''b b b'')
   \<and> pretty_print 7 (Concat [Group (Concat [Text ''aaaaaa'', br]),
                            Group (Concat [Text ''b'', br, Text ''b'', br, Text ''b''])])
       = Some (''aaaaaa b'' @ [newline] @ ''b'' @ [newline] @ ''b'')
   \<and> count_newlines (''aaaaaa'' @ [newline] @ ''b b b'') = 1
   \<and> count_newlines (''aaaaaa b'' @ [newline] @ ''b'' @ [newline] @ ''b'') = 2"
  by code_simp

text \<open>
  The condition on \<open>small\<close> is needed as well: a \<open>small\<close> of two newlines is printed at
  width 2, and its broken form, with one newline, at width 1.
\<close>

lemma newlines_heavy_small:
  "pretty_print 2 (Group (Cond [newline, newline] [] [])) = Some [newline, newline]
   \<and> pretty_print 1 (Group (Cond [newline, newline] [] [])) = Some [newline]"
  by code_simp

end
